theory Spec2Isabelle
  imports Main
begin

section \<open>Strings\<close>

text \<open>Go strings are byte sequences; \<open>string\<close> is a list of 8-bit characters.
  \<open>strings_Split s sep\<close> is \<open>strings.Split(s, sep)\<close> for a one-byte separator (the only
  use in the router is \<open>"/"\<close>): the pieces between the separators, empty pieces kept, and
  one empty piece for the empty string.\<close>

fun strings_Split :: "string \<Rightarrow> char \<Rightarrow> string list" where
  "strings_Split [] sep = [[]]"
| "strings_Split (c # cs) sep =
     (if c = sep then [] # strings_Split cs sep
      else (case strings_Split cs sep of
              [] \<Rightarrow> [[c]]
            | w # ws \<Rightarrow> (c # w) # ws))"

fun strings_Join :: "string list \<Rightarrow> string \<Rightarrow> string" where
  "strings_Join [] sep = []"
| "strings_Join [x] sep = x"
| "strings_Join (x # y # ys) sep = x @ sep @ strings_Join (y # ys) sep"

definition strings_HasPrefix :: "string \<Rightarrow> string \<Rightarrow> bool" where
  "strings_HasPrefix s prefix = (take (length prefix) s = prefix)"

section \<open>Run-time panics\<close>

text \<open>An index out of range and a call of a nil function value abort the Go program
  with a run-time panic, and so does \<open>WriteHeader\<close> of net/http when it is handed a status
  code that is not a three-digit number. Every function below that can reach one returns
  \<open>panic + result\<close>, \<open>Inl\<close> being the panic.\<close>

datatype panic = IndexOutOfRange | NilFunc | InvalidWriteHeaderCode

text \<open>The test \<open>part[0] == ':' || part[0] == '*'\<close>; reading byte 0 of the empty string panics.\<close>

definition isDynamic :: "string \<Rightarrow> panic + bool" where
  "isDynamic p =
     (case p of
        [] \<Rightarrow> Inl IndexOutOfRange
      | c # _ \<Rightarrow> Inr (c = CHR '':'' \<or> c = CHR ''*''))"

section \<open>The prefix tree\<close>

text \<open>A node owns its children: every child is allocated by \<open>insert\<close> and reachable from
  one parent only, so the pointer structure is a tree and is modelled by value.\<close>

datatype node = Node (pattern: string) (part: string) (children: "node list") (isWild: bool)

text \<open>\<open>matchChild\<close> returns the first child that matches; the model returns its position
  in \<open>n.children\<close> (the caller mutates that child in place), \<open>None\<close> for nil. The right
  operand of \<open>||\<close> is evaluated only when \<open>child.part == part\<close> is false.\<close>

fun matchChildLoop :: "node list \<Rightarrow> string \<Rightarrow> panic + nat option" where
  "matchChildLoop [] p = Inr None"
| "matchChildLoop (child # rest) p =
     (if part child = p then Inr (Some 0)
      else (case isDynamic p of
              Inl e \<Rightarrow> Inl e
            | Inr d \<Rightarrow>
                if d \<and> isWild child then Inr (Some 0)
                else (case matchChildLoop rest p of
                        Inl e \<Rightarrow> Inl e
                      | Inr None \<Rightarrow> Inr None
                      | Inr (Some i) \<Rightarrow> Inr (Some (Suc i)))))"

definition matchChild :: "node \<Rightarrow> string \<Rightarrow> panic + nat option" where
  "matchChild n p = matchChildLoop (children n) p"

text \<open>\<open>matchChildren\<close>: the children whose part equals the segment, in insertion order,
  followed by the other children that are wild, in insertion order.\<close>

definition matchChildren :: "node \<Rightarrow> string \<Rightarrow> node list" where
  "matchChildren n p =
     filter (\<lambda>child. part child = p) (children n) @
     filter (\<lambda>child. part child \<noteq> p \<and> isWild child) (children n)"

text \<open>\<open>insert\<close> (named \<open>insert_node\<close> here, \<open>insert\<close> being the set operation of HOL).
  \<open>parts[height]\<close> panics when \<open>height\<close> is past the end of \<open>parts\<close>. The height is
  a natural number: it starts at 0 and is only incremented.\<close>

function insert_node :: "node \<Rightarrow> string \<Rightarrow> string list \<Rightarrow> nat \<Rightarrow> panic + node" where
  "insert_node n pat parts height =
     (if length parts = height then Inr (Node pat (part n) (children n) (isWild n))
      else if length parts < height then Inl IndexOutOfRange
      else (case matchChild n (parts ! height) of
              Inl e \<Rightarrow> Inl e
            | Inr (Some i) \<Rightarrow>
                (case insert_node (children n ! i) pat parts (height + 1) of
                   Inl e \<Rightarrow> Inl e
                 | Inr child \<Rightarrow>
                     Inr (Node (pattern n) (part n) ((children n)[i := child]) (isWild n)))
            | Inr None \<Rightarrow>
                (case isDynamic (parts ! height) of
                   Inl e \<Rightarrow> Inl e
                 | Inr d \<Rightarrow>
                     (case insert_node (Node [] (parts ! height) [] d) pat parts (height + 1) of
                        Inl e \<Rightarrow> Inl e
                      | Inr child \<Rightarrow>
                          Inr (Node (pattern n) (part n) (children n @ [child]) (isWild n))))))"
  by pat_completeness auto
termination
  by (relation "measure (\<lambda>(n, pat, parts, height). length parts - height)") auto

text \<open>The loop of \<open>search\<close> over the candidate children returns the first result that is
  not nil; a candidate after it is not searched.\<close>

fun firstFound :: "(panic + node option) list \<Rightarrow> panic + node option" where
  "firstFound [] = Inr None"
| "firstFound (Inl e # rs) = Inl e"
| "firstFound (Inr (Some r) # rs) = Inr (Some r)"
| "firstFound (Inr None # rs) = firstFound rs"

function search :: "node \<Rightarrow> string list \<Rightarrow> nat \<Rightarrow> panic + node option" where
  "search n parts height =
     (if length parts = height \<or> strings_HasPrefix (part n) ''*'' then
        (if pattern n = [] then Inr None else Inr (Some n))
      else if length parts < height then Inl IndexOutOfRange
      else firstFound (map (\<lambda>child. search child parts (height + 1))
                           (matchChildren n (parts ! height))))"
  by pat_completeness auto
termination
  by (relation "measure (\<lambda>(n, parts, height). length parts - height)") auto

text \<open>\<open>travel\<close> appends to the list every node with a pattern, parents before children.\<close>

fun travel :: "node \<Rightarrow> node list \<Rightarrow> node list" where
  "travel (Node pat p ch w) list =
     fold travel ch (if pat \<noteq> [] then list @ [Node pat p ch w] else list)"

section \<open>The router (router.go)\<close>

text \<open>\<open>parsePattern\<close>: the loop over the pieces of \<open>strings.Split(pattern, "/")\<close> keeps
  the pieces that are not empty and stops after the first piece that starts with \<open>*\<close>.
  \<open>item[0]\<close> is read only when \<open>item\<close> is not empty.\<close>

fun parseLoop :: "string list \<Rightarrow> string list \<Rightarrow> string list" where
  "parseLoop [] parts = parts"
| "parseLoop (item # vs) parts =
     (case item of
        [] \<Rightarrow> parseLoop vs parts
      | c # _ \<Rightarrow> if c = CHR ''*'' then parts @ [item] else parseLoop vs (parts @ [item]))"

definition parsePattern :: "string \<Rightarrow> string list" where
  "parsePattern pat = parseLoop (strings_Split pat CHR ''/'') []"

text \<open>The two Go maps are partial functions; the handler type is a parameter.\<close>

record 'h router =
  roots :: "string \<rightharpoonup> node"
  handlers :: "string \<rightharpoonup> 'h"

definition newRouter :: "'h router" where
  "newRouter = \<lparr>roots = Map.empty, handlers = Map.empty\<rparr>"

definition addRoute :: "'h router \<Rightarrow> string \<Rightarrow> string \<Rightarrow> 'h \<Rightarrow> panic + 'h router" where
  "addRoute r method pat handler =
     (let parts = parsePattern pat;
          key = method @ ''-'' @ pat;
          hs = (handlers r)(key \<mapsto> handler);
          root = (case roots r method of None \<Rightarrow> Node [] [] [] False | Some n \<Rightarrow> n)
      in case insert_node root pat parts 0 of
           Inl e \<Rightarrow> Inl e
         | Inr root' \<Rightarrow> Inr \<lparr>roots = (roots r)(method \<mapsto> root'), handlers = hs\<rparr>)"

text \<open>The parameter loop of \<open>getRoute\<close>, \<open>for index, part := range parts\<close>:
  \<open>searchParts[index]\<close> panics when \<open>index\<close> is not below the length, the slice
  \<open>searchParts[index:]\<close> when it is above it, \<open>part[0]\<close> on an empty part.\<close>

fun paramLoop :: "string list \<Rightarrow> nat \<Rightarrow> string list \<Rightarrow> (string \<rightharpoonup> string) \<Rightarrow>
    panic + (string \<rightharpoonup> string)" where
  "paramLoop [] index searchParts params = Inr params"
| "paramLoop (p # rest) index searchParts params =
     (case p of
        [] \<Rightarrow> Inl IndexOutOfRange
      | c # name \<Rightarrow>
          if c = CHR '':'' then
            (if index < length searchParts
             then paramLoop rest (index + 1) searchParts (params(name \<mapsto> searchParts ! index))
             else Inl IndexOutOfRange)
          else if c = CHR ''*'' \<and> 1 < length p then
            (if index \<le> length searchParts
             then Inr (params(name \<mapsto> strings_Join (drop index searchParts) ''/''))
             else Inl IndexOutOfRange)
          else paramLoop rest (index + 1) searchParts params)"

text \<open>\<open>getRoute\<close> returns the node and the parameters, or \<open>nil, nil\<close> (\<open>None\<close>).\<close>

definition getRoute :: "'h router \<Rightarrow> string \<Rightarrow> string \<Rightarrow>
    panic + (node \<times> (string \<rightharpoonup> string)) option" where
  "getRoute r method path =
     (let searchParts = parsePattern path in
      case roots r method of
        None \<Rightarrow> Inr None
      | Some root \<Rightarrow>
          (case search root searchParts 0 of
             Inl e \<Rightarrow> Inl e
           | Inr None \<Rightarrow> Inr None
           | Inr (Some n) \<Rightarrow>
               (case paramLoop (parsePattern (pattern n)) 0 searchParts Map.empty of
                  Inl e \<Rightarrow> Inl e
                | Inr params \<Rightarrow> Inr (Some (n, params)))))"

definition getRoutes :: "'h router \<Rightarrow> string \<Rightarrow> node list option" where
  "getRoutes r method =
     (case roots r method of
        None \<Rightarrow> None
      | Some root \<Rightarrow> Some (travel root []))"

text \<open>A sequence of registrations, as the setup phase performs them one after the other;
  a panic ends it.\<close>

fun addRoutes :: "'h router \<Rightarrow> (string \<times> string \<times> 'h) list \<Rightarrow> panic + 'h router" where
  "addRoutes r [] = Inr r"
| "addRoutes r ((method, pat, handler) # regs) =
     (case addRoute r method pat handler of
        Inl e \<Rightarrow> Inl e
      | Inr r' \<Rightarrow> addRoutes r' regs)"

section \<open>The context and the handler chain (context.go)\<close>

text \<open>The response writer is an interface of net/http. The model keeps the calls that the
  context makes on it, in order, and the one reaction of the writer that changes the control
  flow of a handler: \<open>WriteHeader(code)\<close> panics when \<open>code\<close> is below 100 or above 999. The
  model does so whether or not a header was written before. The bytes handed to \<open>Write\<close>
  are kept as the expression that produces them: \<open>fmt.Sprintf\<close> of a format and its arguments, or the
  JSON encoding of \<open>H{"message": err}\<close>, the only object that the chain encodes.\<close>

datatype bytes = Sprintf string "string list" | JsonMessage string

datatype writerCall = SetCall string string | WriteHeaderCall int | WriteCall bytes

text \<open>A handler is Go code that receives the context. The handlers considered here are
  straight-line code over the operations of the context that matter for the chain: an
  observable action of the handler's own (\<open>Log e\<close>, recorded in \<open>trace\<close>), \<open>c.Next()\<close>,
  \<open>c.Fail(code, err)\<close> and \<open>c.String\<close> of a code, a format and its arguments. A handler value may be
  nil. The cursor \<open>index\<close> is an unbounded integer: a Go \<open>int\<close> would need \<open>2^63\<close> calls of
  \<open>Next\<close> to overflow.\<close>

datatype 'e stmt = Log 'e | CallNext | CallFail int string | CallString int string "string list"

datatype 'e HandlerFunc = NilHandler | Func "'e stmt list"

record 'e Context =
  Method :: string
  Path :: string
  Params :: "string \<rightharpoonup> string"
  StatusCode :: int
  Writer :: "writerCall list"
  handlers :: "'e HandlerFunc list"
  index :: int
  trace :: "'e list"

definition newContext :: "string \<Rightarrow> string \<Rightarrow> 'e Context" where
  "newContext method path =
     \<lparr>Method = method, Path = path, Params = Map.empty, StatusCode = 0, Writer = [],
      handlers = [], index = - 1, trace = []\<rparr>"

text \<open>\<open>SetHeader\<close> calls \<open>c.Writer.Header().Set(key, value)\<close>.\<close>

definition SetHeader :: "'e Context \<Rightarrow> string \<Rightarrow> string \<Rightarrow> 'e Context" where
  "SetHeader c key v = c\<lparr>Writer := Writer c @ [SetCall key v]\<rparr>"

text \<open>\<open>Status\<close> stores the code and calls \<open>c.Writer.WriteHeader(code)\<close>.\<close>

definition Status :: "'e Context \<Rightarrow> int \<Rightarrow> panic + 'e Context" where
  "Status c code =
     (if code < 100 \<or> 999 < code then Inl InvalidWriteHeaderCode
      else Inr (c\<lparr>StatusCode := code, Writer := Writer c @ [WriteHeaderCall code]\<rparr>))"

definition String :: "'e Context \<Rightarrow> int \<Rightarrow> string \<Rightarrow> string list \<Rightarrow> panic + 'e Context" where
  "String c code format args =
     (case Status (SetHeader c ''Content-Type'' ''text/plain'') code of
        Inl e \<Rightarrow> Inl e
      | Inr c' \<Rightarrow> Inr (c'\<lparr>Writer := Writer c' @ [WriteCall (Sprintf format args)]\<rparr>))"

text \<open>\<open>JSON\<close> for the object \<open>H{"message": err}\<close>; the encoder does not fail on a string, so
  the branch that calls \<open>http.Error\<close> is not taken.\<close>

definition JSON :: "'e Context \<Rightarrow> int \<Rightarrow> string \<Rightarrow> panic + 'e Context" where
  "JSON c code err =
     (case Status (SetHeader c ''Content-Type'' ''application/json'') code of
        Inl e \<Rightarrow> Inl e
      | Inr c' \<Rightarrow> Inr (c'\<lparr>Writer := Writer c' @ [WriteCall (JsonMessage err)]\<rparr>))"

text \<open>\<open>Fail\<close> moves the cursor to the length of the chain, then writes the response.\<close>

definition Fail :: "'e Context \<Rightarrow> int \<Rightarrow> string \<Rightarrow> panic + 'e Context" where
  "Fail c code err = JSON (c\<lparr>index := int (length (handlers c))\<rparr>) code err"

text \<open>The cursor after a step, compared with the cursor before it: the chain is the same,
  and the cursor has not moved back or is at or past the end of the chain.\<close>

definition advanced :: "'e Context \<Rightarrow> 'e Context \<Rightarrow> bool" where
  "advanced c c' =
     (handlers c' = handlers c \<and>
      (index c \<le> index c' \<or> int (length (handlers c)) \<le> index c'))"

text \<open>\<open>Next\<close> increments the cursor, reads the length of the chain once, and runs the loop
  \<open>for ; c.index < handlersLen; c.index++ { c.handlers[c.index](c) }\<close>, here \<open>forLoop\<close>.
  \<open>call body c\<close> runs the body of a handler on the context.\<close>

function Next :: "'e Context \<Rightarrow> panic + 'e Context"
  and forLoop :: "int \<Rightarrow> 'e Context \<Rightarrow> panic + 'e Context"
  and call :: "'e stmt list \<Rightarrow> 'e Context \<Rightarrow> panic + 'e Context"
where
  "Next c = forLoop (int (length (handlers c))) (c\<lparr>index := index c + 1\<rparr>)"
| "forLoop handlersLen c =
     (if index c < handlersLen then
        (if index c < 0 \<or> int (length (handlers c)) \<le> index c then Inl IndexOutOfRange
         else (case handlers c ! nat (index c) of
                 NilHandler \<Rightarrow> Inl NilFunc
               | Func body \<Rightarrow>
                   (case call body c of
                      Inl e \<Rightarrow> Inl e
                    | Inr c' \<Rightarrow> forLoop handlersLen (c'\<lparr>index := index c' + 1\<rparr>))))
      else Inr c)"
| "call [] c = Inr c"
| "call (Log e # rest) c = call rest (c\<lparr>trace := trace c @ [e]\<rparr>)"
| "call (CallNext # rest) c = (case Next c of Inl e \<Rightarrow> Inl e | Inr c' \<Rightarrow> call rest c')"
| "call (CallFail code err # rest) c =
     (case Fail c code err of Inl e \<Rightarrow> Inl e | Inr c' \<Rightarrow> call rest c')"
| "call (CallString code format args # rest) c =
     (case String c code format args of Inl e \<Rightarrow> Inl e | Inr c' \<Rightarrow> call rest c')"
  by pat_completeness auto
termination
proof -
  have fail: "Fail c code err = Inr b \<Longrightarrow>
      handlers b = handlers c \<and> index b = int (length (handlers c))"
    for c b :: "'e Context" and code err
    by (auto simp: Fail_def JSON_def Status_def SetHeader_def split: if_splits)
  have str: "String c code format args = Inr b \<Longrightarrow>
      handlers b = handlers c \<and> index b = index c"
    for c b :: "'e Context" and code format args
    by (auto simp: String_def Status_def SetHeader_def split: if_splits)
  have adv:
    "Next_forLoop_call_dom (Inl c) \<Longrightarrow> Next c = Inr c' \<Longrightarrow> advanced c c'"
    "Next_forLoop_call_dom (Inr (Inl (n, c))) \<Longrightarrow> forLoop n c = Inr c' \<Longrightarrow> advanced c c'"
    "Next_forLoop_call_dom (Inr (Inr (body, c))) \<Longrightarrow> call body c = Inr c' \<Longrightarrow> advanced c c'"
    for c c' :: "'e Context" and n body
  proof (induction c and n c and body c arbitrary: c' and c' and c'
         rule: Next_forLoop_call.pinduct)
    case (1 c)
    then show ?case
      by (fastforce simp: Next.psimps advanced_def)
  next
    case (2 handlersLen c)
    show ?case
    proof (cases "index c < handlersLen")
      case False
      with 2 show ?thesis by (simp add: forLoop.psimps advanced_def)
    next
      case True
      with 2(1,4) obtain body b where
        nb: "\<not> (index c < 0 \<or> int (length (handlers c)) \<le> index c)"
        and hb: "handlers c ! nat (index c) = Func body"
        and cb: "call body c = Inr b"
        and fl: "forLoop handlersLen (b\<lparr>index := index b + 1\<rparr>) = Inr c'"
        by (auto simp: forLoop.psimps split: if_splits HandlerFunc.splits sum.splits)
      from 2(2)[OF True nb hb cb] have "advanced c b" .
      moreover from 2(3)[OF True nb hb cb fl] have "advanced (b\<lparr>index := index b + 1\<rparr>) c'" .
      ultimately show ?thesis by (auto simp: advanced_def)
    qed
  next
    case (3 c)
    then show ?case by (simp add: call.psimps advanced_def)
  next
    case (4 e rest c)
    then show ?case by (fastforce simp: call.psimps advanced_def)
  next
    case (5 rest c)
    from 5(1,4) obtain b where nb: "Next c = Inr b" and cb: "call rest b = Inr c'"
      by (auto simp: call.psimps split: sum.splits)
    from 5(2)[OF nb] 5(3)[OF nb cb] show ?case by (auto simp: advanced_def)
  next
    case (6 code err rest c)
    from 6(1,3) obtain b where nb: "Fail c code err = Inr b" and cb: "call rest b = Inr c'"
      by (auto simp: call.psimps split: sum.splits)
    from 6(2)[OF nb cb] fail[OF nb] show ?case by (auto simp: advanced_def)
  next
    case (7 code format args rest c)
    from 7(1,3) obtain b where nb: "String c code format args = Inr b"
      and cb: "call rest b = Inr c'"
      by (auto simp: call.psimps split: sum.splits)
    from 7(2)[OF nb cb] str[OF nb] show ?case by (auto simp: advanced_def)
  qed
  show ?thesis
  proof (relation "measures
    [\<lambda>x. case x of
        Inl c \<Rightarrow> nat (int (length (handlers c)) - index c - 1)
      | Inr (Inl (n, c)) \<Rightarrow> nat (int (length (handlers c)) - index c)
      | Inr (Inr (body, c)) \<Rightarrow> nat (int (length (handlers c)) - index c - 1),
     \<lambda>x. case x of
        Inl c \<Rightarrow> 1
      | Inr (Inl (n, c)) \<Rightarrow> 0
      | Inr (Inr (body, c)) \<Rightarrow> length body + 1]", goal_cases)
    case 1
    show ?case by simp
  next
    case (2 c)
    show ?case by simp
  next
    case (3 hl c body)
    then show ?case by auto
  next
    case (4 hl c body b)
    from adv(3)[OF 4(5,4)] 4(1,2) show ?case by (auto simp: advanced_def)
  next
    case (5 e rest c)
    show ?case by simp
  next
    case (6 rest c)
    show ?case by simp
  next
    case (7 rest c b)
    from adv(1)[OF 7(2,1)] show ?case by (auto simp: advanced_def)
  next
    case (8 code err rest c b)
    from fail[OF 8] show ?case by auto
  next
    case (9 code format args rest c b)
    from str[OF 9] show ?case by simp
  qed
qed

text \<open>\<open>handle\<close> resolves the route, appends the handler found under the key of the
  matched pattern (nil when the map has none) or the 404 handler, and starts the chain.
  The 404 handler reads the path of the context it is called on, which no operation of the
  chain changes.\<close>

definition handle :: "'e HandlerFunc router \<Rightarrow> 'e Context \<Rightarrow> panic + 'e Context" where
  "handle r c =
     (case getRoute r (Method c) (Path c) of
        Inl e \<Rightarrow> Inl e
      | Inr (Some (n, params)) \<Rightarrow>
          (let key = Method c @ ''-'' @ pattern n;
               h = (case router.handlers r key of None \<Rightarrow> NilHandler | Some f \<Rightarrow> f)
           in Next (c\<lparr>Params := params, handlers := handlers c @ [h]\<rparr>))
      | Inr None \<Rightarrow>
          Next (c\<lparr>handlers := handlers c @
                  [Func [CallString 404 (''404 NOT FOUND: %s'' @ [CHR 0x0A]) [Path c]]]\<rparr>))"

section \<open>Notions used to state the properties of the chain\<close>

text \<open>What a handler body records when every \<open>Next\<close> in it finds nothing left to run: its
  own \<open>Log\<close> actions, in order.\<close>

fun logged :: "'e stmt list \<Rightarrow> 'e list" where
  "logged [] = []"
| "logged (Log e # rest) = e # logged rest"
| "logged (s # rest) = logged rest"

text \<open>A statement that neither continues the chain nor cuts it short.\<close>

fun plainStmt :: "'e stmt \<Rightarrow> bool" where
  "plainStmt CallNext = False"
| "plainStmt (CallFail code err) = False"
| "plainStmt s = True"

text \<open>A status code that \<open>WriteHeader\<close> accepts, and a statement that hands the writer no
  other code: a handler made of such statements does not panic in the writer.\<close>

definition validCode :: "int \<Rightarrow> bool" where
  "validCode code = (100 \<le> code \<and> code \<le> 999)"

fun validStmt :: "'e stmt \<Rightarrow> bool" where
  "validStmt (CallFail code err) = validCode code"
| "validStmt (CallString code format args) = validCode code"
| "validStmt s = True"

text \<open>A middleware with a pre-phase and a post-phase around exactly one call of \<open>Next\<close>.\<close>

definition middleware :: "'e list \<Rightarrow> 'e list \<Rightarrow> 'e HandlerFunc" where
  "middleware pre post = Func (map Log pre @ [CallNext] @ map Log post)"

section \<open>Notions used to state and prove the properties of the router\<close>

text \<open>A segment is dynamic when its first byte is \<open>:\<close> or \<open>*\<close>; the empty string is not.\<close>

definition dyn :: "string \<Rightarrow> bool" where
  "dyn p = (case p of [] \<Rightarrow> False | c # _ \<Rightarrow> c = CHR '':'' \<or> c = CHR ''*'')"

text \<open>The test \<open>strings.HasPrefix(n.part, "*")\<close> of \<open>search\<close>.\<close>

definition star :: "string \<Rightarrow> bool" where
  "star p = strings_HasPrefix p ''*''"

text \<open>The position that \<open>matchChild\<close> returns when the segment is not empty, and
  \<open>insert\<close> and \<open>search\<close> by recursion on the segments that are left, for the cases in
  which the code does not panic. The lemmas \<open>insert_node_ins\<close> and \<open>search_srch\<close> below
  show that they compute what \<open>insert_node\<close> and \<open>search\<close> compute.\<close>

fun firstMatch :: "node list \<Rightarrow> string \<Rightarrow> nat option" where
  "firstMatch [] p = None"
| "firstMatch (child # rest) p =
     (if part child = p \<or> (dyn p \<and> isWild child) then Some 0
      else map_option Suc (firstMatch rest p))"

fun ins :: "node \<Rightarrow> string \<Rightarrow> string list \<Rightarrow> node" where
  "ins n pat [] = Node pat (part n) (children n) (isWild n)"
| "ins n pat (p # ps) =
     (case firstMatch (children n) p of
        Some i \<Rightarrow>
          Node (pattern n) (part n) ((children n)[i := ins (children n ! i) pat ps]) (isWild n)
      | None \<Rightarrow>
          Node (pattern n) (part n) (children n @ [ins (Node [] p [] (dyn p)) pat ps]) (isWild n))"

fun firstSome :: "node option list \<Rightarrow> node option" where
  "firstSome [] = None"
| "firstSome (None # rs) = firstSome rs"
| "firstSome (Some r # rs) = Some r"

fun srch :: "node \<Rightarrow> string list \<Rightarrow> node option" where
  "srch n [] = (if pattern n = [] then None else Some n)"
| "srch n (p # ps) =
     (if star (part n) then (if pattern n = [] then None else Some n)
      else firstSome (map (\<lambda>child. srch child ps) (matchChildren n p)))"

text \<open>The root that \<open>addRoute\<close> inserts into: the one of the method, or a new node.\<close>

definition rootOf :: "'h router \<Rightarrow> string \<Rightarrow> node" where
  "rootOf r method = (case roots r method of None \<Rightarrow> Node [] [] [] False | Some n \<Rightarrow> n)"

text \<open>The invariant of the tries that registrations build. A pattern segment and the part
  of the node it was inserted at are equal or both dynamic; a stored pattern has, segment
  by segment, such a relation to the parts on the way from the root to its node; and a
  node below the root has a part that is not empty and is wild exactly when that part is
  dynamic.\<close>

definition compat :: "string \<Rightarrow> string \<Rightarrow> bool" where
  "compat a b = (a = b \<or> (dyn a \<and> dyn b))"

fun wf :: "string list \<Rightarrow> node \<Rightarrow> bool" where
  "wf path (Node pat p ch w) =
     ((pat = [] \<or> list_all2 compat (parsePattern pat) path) \<and>
      (\<forall>c \<in> set ch. part c \<noteq> [] \<and> isWild c = dyn (part c) \<and> wf (path @ [part c]) c))"

text \<open>Every trie of the router satisfies the invariant.\<close>

definition routerWf :: "'h router \<Rightarrow> bool" where
  "routerWf r = (\<forall>method n. roots r method = Some n \<longrightarrow> wf [] n)"

text \<open>The patterns stored in a trie, and the patterns registered for a method by a list of
  registrations.\<close>

fun pats :: "node \<Rightarrow> string set" where
  "pats (Node pat p ch w) = (if pat = [] then {} else {pat}) \<union> (\<Union>c \<in> set ch. pats c)"

definition registered :: "(string \<times> string \<times> 'h) list \<Rightarrow> string \<Rightarrow> string set" where
  "registered regs method = set [pat. (m, pat, h) \<leftarrow> regs, m = method]"

text \<open>The node reached from \<open>n\<close> by following, for each segment, the first child whose
  part is that segment, when that node holds a pattern.\<close>

fun staticNode :: "node \<Rightarrow> string list \<Rightarrow> node option" where
  "staticNode n [] = (if pattern n = [] then None else Some n)"
| "staticNode n (p # ps) =
     (case find (\<lambda>child. part child = p) (children n) of
        None \<Rightarrow> None
      | Some child \<Rightarrow> staticNode child ps)"

text \<open>A static pattern: it has a segment, and none of its segments is dynamic.\<close>

definition staticPat :: "string \<Rightarrow> bool" where
  "staticPat pat = (parsePattern pat \<noteq> [] \<and> list_all (\<lambda>p. \<not> dyn p) (parsePattern pat))"

text \<open>What holds of a router after the registrations \<open>regs\<close>: the invariant of the tries,
  roots with an empty part, stored patterns that are registered ones, and a node with a
  pattern at the end of the path of every registered static pattern.\<close>

definition built :: "(string \<times> string \<times> 'h) list \<Rightarrow> 'h router \<Rightarrow> bool" where
  "built regs r =
     (routerWf r \<and>
      (\<forall>m. part (rootOf r m) = [] \<and> pats (rootOf r m) \<subseteq> registered regs m) \<and>
      (\<forall>m S. S \<in> registered regs m \<and> staticPat S \<longrightarrow>
         staticNode (rootOf r m) (parsePattern S) \<noteq> None))"

text \<open>The terminal nodes that the segments of a request lead to from \<open>n\<close>: a node is
  terminal when the segments are used up or its part starts with \<open>*\<close>; the candidates
  of each level are those of \<open>matchChildren\<close>, in its order.\<close>

fun terminals :: "node \<Rightarrow> string list \<Rightarrow> node list" where
  "terminals n [] = [n]"
| "terminals n (p # ps) =
     (if star (part n) then [n]
      else concat (map (\<lambda>child. terminals child ps) (matchChildren n p)))"

text \<open>A request matches the segments of a pattern: segment by segment equal or under a
  dynamic segment, a catch-all segment being last and taking one or more segments.\<close>

fun matches :: "string list \<Rightarrow> string list \<Rightarrow> bool" where
  "matches [] [] = True"
| "matches (p # ps) (s # ss) = (if star p then ps = [] else (p = s \<or> dyn p) \<and> matches ps ss)"
| "matches [] (s # ss) = False"
| "matches (p # ps) [] = False"

text \<open>Two segments are of the same kind when they are equal or both dynamic with the same
  first byte (both \<open>:\<close> segments or both \<open>*\<close> segments, whatever their names). Two lists
  of segments agree when, after a common beginning of segments of the same kind, they do
  not go on with a \<open>:\<close> segment in one and a \<open>*\<close> segment in the other. A list of
  registrations is consistent for a method when the patterns it registers for the method
  agree two by two: no position of the trie is given both a \<open>:\<close> and a \<open>*\<close> segment.\<close>

definition sameKind :: "string \<Rightarrow> string \<Rightarrow> bool" where
  "sameKind a b = (a = b \<or> (dyn a \<and> dyn b \<and> hd a = hd b))"






text \<open>A request segment is under a pattern segment when they are equal or the pattern
  segment is dynamic.\<close>

definition under :: "string \<Rightarrow> string \<Rightarrow> bool" where
  "under p s = (p = s \<or> dyn p)"




section \<open>The handler chain\<close>

declare forLoop.simps [simp del]

lemma forLoop_done [simp]: "handlersLen \<le> index c \<Longrightarrow> forLoop handlersLen c = Inr c"
  by (simp add: forLoop.simps)

lemma call_logs: "call (map Log es @ rest) c = call rest (c\<lparr>trace := trace c @ es\<rparr>)"
  by (induction es arbitrary: c) simp_all

lemma Fail_valid:
  "validCode code \<Longrightarrow>
   \<exists>c'. Fail c code err = Inr c' \<and> trace c' = trace c \<and> handlers c' = handlers c \<and>
        index c' = int (length (handlers c))"
  by (simp add: Fail_def JSON_def Status_def SetHeader_def validCode_def)

lemma String_valid:
  "validCode code \<Longrightarrow>
   \<exists>c'. String c code format args = Inr c' \<and> trace c' = trace c \<and>
        handlers c' = handlers c \<and> index c' = index c"
  by (simp add: String_def Status_def SetHeader_def validCode_def)

lemma call_past_end:
  "list_all validStmt body \<Longrightarrow> int (length (handlers c)) \<le> index c \<Longrightarrow>
   \<exists>c'. call body c = Inr c' \<and> trace c' = trace c @ logged body \<and>
        handlers c' = handlers c \<and> int (length (handlers c)) \<le> index c'"
proof (induction body arbitrary: c)
  case Nil
  then show ?case by simp
next
  case (Cons s body)
  from Cons.prems(1) have vb: "list_all validStmt body" by simp
  show ?case
  proof (cases s)
    case (Log e)
    with Cons.IH[OF vb, of "c\<lparr>trace := trace c @ [e]\<rparr>"] Cons.prems(2) show ?thesis by auto
  next
    case CallNext
    with Cons.IH[OF vb, of "c\<lparr>index := index c + 1\<rparr>"] Cons.prems(2) show ?thesis by auto
  next
    case (CallFail code err)
    with Cons.prems(1) have "validCode code" by simp
    from Fail_valid[OF this, of c err] obtain b where
      b: "Fail c code err = Inr b" "trace b = trace c" "handlers b = handlers c"
        "index b = int (length (handlers c))"
      by blast
    with Cons.IH[OF vb, of b] CallFail show ?thesis by auto
  next
    case (CallString code format args)
    with Cons.prems(1) have "validCode code" by simp
    from String_valid[OF this, of c format args] obtain b where
      b: "String c code format args = Inr b" "trace b = trace c" "handlers b = handlers c"
        "index b = index c"
      by blast
    with Cons.IH[OF vb, of b] Cons.prems(2) CallString show ?thesis by auto
  qed
qed

lemma call_plain:
  "list_all plainStmt body \<Longrightarrow> list_all validStmt body \<Longrightarrow>
   \<exists>c'. call body c = Inr c' \<and> trace c' = trace c @ logged body \<and>
        handlers c' = handlers c \<and> index c' = index c"
proof (induction body arbitrary: c)
  case Nil
  then show ?case by simp
next
  case (Cons s body)
  from Cons.prems have pb: "list_all plainStmt body" and vb: "list_all validStmt body"
    by simp_all
  show ?case
  proof (cases s)
    case (Log e)
    with Cons.IH[OF pb vb, of "c\<lparr>trace := trace c @ [e]\<rparr>"] show ?thesis by auto
  next
    case CallNext
    with Cons.prems show ?thesis by simp
  next
    case (CallFail code err)
    with Cons.prems show ?thesis by simp
  next
    case (CallString code format args)
    with Cons.prems(2) have "validCode code" by simp
    from String_valid[OF this, of c format args] obtain b where
      b: "String c code format args = Inr b" "trace b = trace c" "handlers b = handlers c"
        "index b = index c"
      by blast
    with Cons.IH[OF pb vb, of b] CallString show ?thesis by auto
  qed
qed

lemma call_last:
  "list_all validStmt body \<Longrightarrow> index c + 1 = int (length (handlers c)) \<Longrightarrow>
   \<exists>c'. call body c = Inr c' \<and> trace c' = trace c @ logged body \<and>
        handlers c' = handlers c \<and> int (length (handlers c)) \<le> index c' + 1"
proof (induction body arbitrary: c)
  case Nil
  then show ?case by simp
next
  case (Cons s body)
  from Cons.prems(1) have vb: "list_all validStmt body" by simp
  show ?case
  proof (cases s)
    case (Log e)
    with Cons.IH[OF vb, of "c\<lparr>trace := trace c @ [e]\<rparr>"] Cons.prems(2) show ?thesis by auto
  next
    case CallNext
    from call_past_end[OF vb, of "c\<lparr>index := index c + 1\<rparr>"] Cons.prems(2) CallNext
    show ?thesis by auto
  next
    case (CallFail code err)
    with Cons.prems(1) have "validCode code" by simp
    from Fail_valid[OF this, of c err] obtain b where
      b: "Fail c code err = Inr b" "trace b = trace c" "handlers b = handlers c"
        "index b = int (length (handlers c))"
      by blast
    with call_past_end[OF vb, of b] CallFail show ?thesis by auto
  next
    case (CallString code format args)
    with Cons.prems(1) have "validCode code" by simp
    from String_valid[OF this, of c format args] obtain b where
      b: "String c code format args = Inr b" "trace b = trace c" "handlers b = handlers c"
        "index b = index c"
      by blast
    with Cons.IH[OF vb, of b] Cons.prems(2) CallString show ?thesis by auto
  qed
qed

lemma chain_unwinds:
  assumes hs: "handlers c = before @ map (\<lambda>(pre, post). middleware pre post) ms @ Func body # later"
    and ix: "index c = int (length before)"
    and body: "\<And>c0. handlers c0 = handlers c \<Longrightarrow> index c0 = int (length before + length ms) \<Longrightarrow>
       \<exists>c1. call body c0 = Inr c1 \<and> trace c1 = trace c0 @ out \<and> handlers c1 = handlers c0 \<and>
            int (length (handlers c0)) \<le> index c1 + 1"
  shows "\<exists>c'. forLoop (int (length (handlers c))) c = Inr c' \<and>
     trace c' = trace c @ concat (map fst ms) @ out @ concat (rev (map snd ms)) \<and>
     handlers c' = handlers c \<and> int (length (handlers c)) \<le> index c'"
  using assms
proof (induction ms arbitrary: before c)
  case Nil
  from Nil.prems(3)[of c] Nil.prems(2) obtain c1 where
    c1: "call body c = Inr c1" "trace c1 = trace c @ out" "handlers c1 = handlers c"
      "int (length (handlers c)) \<le> index c1 + 1"
    by auto
  have at: "handlers c ! nat (index c) = Func body"
    using Nil.prems(1,2) by simp
  have lt: "index c < int (length (handlers c))" "\<not> index c < 0"
    using Nil.prems(1,2) by simp_all
  have "forLoop (int (length (handlers c))) c = Inr (c1\<lparr>index := index c1 + 1\<rparr>)"
    using at lt c1 by (subst forLoop.simps) simp
  with c1 show ?case by simp
next
  case (Cons m ms)
  obtain pre post where m: "m = (pre, post)" by (cases m)
  let ?c0 = "c\<lparr>trace := trace c @ pre\<rparr>"
  let ?cn = "?c0\<lparr>index := index ?c0 + 1\<rparr>"
  have at: "handlers c ! nat (index c) = middleware pre post"
    using Cons.prems(1,2) m by simp
  have lt: "index c < int (length (handlers c))" "\<not> index c < 0"
    using Cons.prems(1,2) by simp_all
  have "\<exists>c'. forLoop (int (length (handlers ?cn))) ?cn = Inr c' \<and>
     trace c' = trace ?cn @ concat (map fst ms) @ out @ concat (rev (map snd ms)) \<and>
     handlers c' = handlers ?cn \<and> int (length (handlers ?cn)) \<le> index c'"
  proof (rule Cons.IH[of ?cn "before @ [middleware pre post]"])
    show "handlers ?cn = (before @ [middleware pre post]) @
        map (\<lambda>(pre, post). middleware pre post) ms @ Func body # later"
      using Cons.prems(1) m by simp
    show "index ?cn = int (length (before @ [middleware pre post]))"
      using Cons.prems(2) by simp
    fix c0 :: "'a Context"
    assume "handlers c0 = handlers ?cn"
      and "index c0 = int (length (before @ [middleware pre post]) + length ms)"
    then show "\<exists>c1. call body c0 = Inr c1 \<and> trace c1 = trace c0 @ out \<and>
        handlers c1 = handlers c0 \<and> int (length (handlers c0)) \<le> index c1 + 1"
      using Cons.prems(3)[of c0] by simp
  qed
  then obtain c1 where c1: "Next ?c0 = Inr c1"
    "trace c1 = trace c @ pre @ concat (map fst ms) @ out @ concat (rev (map snd ms))"
    "handlers c1 = handlers c" "int (length (handlers c)) \<le> index c1"
    by auto
  let ?c2 = "c1\<lparr>trace := trace c1 @ post\<rparr>"
  have "call (map Log pre @ [CallNext] @ map Log post) c = Inr ?c2"
    using c1(1) call_logs[of post "[]" c1] by (simp add: call_logs)
  then have "forLoop (int (length (handlers c))) c = Inr (?c2\<lparr>index := index ?c2 + 1\<rparr>)"
    using at lt c1(3,4) by (subst forLoop.simps) (simp add: middleware_def)
  with c1 m show ?case by simp
qed

text \<open>Claim C1, as the code has it. A handler that returns without calling \<open>Next\<close> or \<open>Fail\<close>
  (and hands the writer status codes from 100 to 999 only, so that it does return) does not
  stop the chain: the loop of the \<open>Next\<close> that invoked it advances the cursor by one and
  calls the handler after it, on the context the handler left.\<close>

theorem plain_handler_continues:
  assumes hs: "handlers c = before @ Func p # Func q # later"
    and ix: "index c = int (length before)"
    and pl: "list_all plainStmt p"
    and vl: "list_all validStmt p"
  shows "\<exists>c1. call p c = Inr c1 \<and> trace c1 = trace c @ logged p \<and> index c1 = index c \<and>
     forLoop (int (length (handlers c))) c =
       (case call q (c1\<lparr>index := index c + 1\<rparr>) of
          Inl e \<Rightarrow> Inl e
        | Inr c2 \<Rightarrow> forLoop (int (length (handlers c))) (c2\<lparr>index := index c2 + 1\<rparr>))"
proof -
  from call_plain[OF pl vl, of c] obtain c1 where
    c1: "call p c = Inr c1" "trace c1 = trace c @ logged p" "handlers c1 = handlers c"
      "index c1 = index c"
    by auto
  have at: "handlers c ! nat (index c) = Func p"
    "handlers c ! nat (index c + 1) = Func q"
    using hs ix by (simp_all add: nth_append nat_add_distrib)
  have lt: "index c < int (length (handlers c))" "\<not> index c < 0"
    "index c + 1 < int (length (handlers c))"
    using hs ix by simp_all
  have "forLoop (int (length (handlers c))) c =
      forLoop (int (length (handlers c))) (c1\<lparr>index := index c + 1\<rparr>)"
    using at(1) lt c1 by (subst forLoop.simps) simp
  also have "\<dots> = (case call q (c1\<lparr>index := index c + 1\<rparr>) of
          Inl e \<Rightarrow> Inl e
        | Inr c2 \<Rightarrow> forLoop (int (length (handlers c))) (c2\<lparr>index := index c2 + 1\<rparr>))"
    using at(2) lt c1 by (subst forLoop.simps) simp
  finally show ?thesis using c1 by simp
qed

lemma Next_two_middlewares:
  assumes hs: "handlers c = [middleware pre1 post1, middleware pre2 post2, Func h]"
    and ix: "index c = - 1"
    and vh: "list_all validStmt h"
  shows "\<exists>c'. Next c = Inr c' \<and> trace c' = trace c @ pre1 @ pre2 @ logged h @ post2 @ post1"
proof -
  let ?c = "c\<lparr>index := index c + 1\<rparr>"
  have "\<exists>c'. forLoop (int (length (handlers ?c))) ?c = Inr c' \<and>
     trace c' = trace ?c @ concat (map fst [(pre1, post1), (pre2, post2)]) @ logged h @
                concat (rev (map snd [(pre1, post1), (pre2, post2)])) \<and>
     handlers c' = handlers ?c \<and> int (length (handlers ?c)) \<le> index c'"
  proof (rule chain_unwinds[where before = "[]" and later = "[]" and body = h])
    show "handlers ?c = [] @ map (\<lambda>(pre, post). middleware pre post)
        [(pre1, post1), (pre2, post2)] @ [Func h]"
      using hs by simp
    show "index ?c = int (length [])"
      using ix by simp
    fix c0 :: "'a Context"
    assume "handlers c0 = handlers ?c"
      and "index c0 = int (length [] + length [(pre1, post1), (pre2, post2)])"
    then have "index c0 + 1 = int (length (handlers c0))"
      using hs by simp
    from call_last[OF vh this]
    show "\<exists>c1. call h c0 = Inr c1 \<and> trace c1 = trace c0 @ logged h \<and>
        handlers c1 = handlers c0 \<and> int (length (handlers c0)) \<le> index c1 + 1" .
  qed
  then obtain c' where "forLoop (int (length (handlers ?c))) ?c = Inr c'"
    and "trace c' = trace ?c @ concat (map fst [(pre1, post1), (pre2, post2)]) @ logged h @
                concat (rev (map snd [(pre1, post1), (pre2, post2)]))"
    by blast
  then show ?thesis by (intro exI[of _ c']) simp
qed

text \<open>Claim C5. For the chain M1, M2, H, where each middleware runs its pre-phase, calls
  \<open>Next\<close> once and runs its post-phase, and H hands the writer status codes from 100 to 999
  only, the recorded order is M1's pre-phase, M2's pre-phase, H, M2's post-phase, M1's
  post-phase.\<close>

theorem chain_order:
  assumes "handlers c = [middleware pre1 post1, middleware pre2 post2, Func h]"
    and "index c = - 1"
    and "list_all validStmt h"
  shows "\<exists>c'. Next c = Inr c' \<and> trace c' = trace c @ pre1 @ pre2 @ logged h @ post2 @ post1"
  using assms by (rule Next_two_middlewares)

text \<open>The same order when \<open>handle\<close> assembles the chain: the context holds the two
  middlewares, the route resolves, and \<open>handle\<close> appends the registered handler.\<close>

lemma handle_two_middlewares:
  assumes "getRoute r (Method c) (Path c) = Inr (Some (n, params))"
    and "router.handlers r (Method c @ ''-'' @ pattern n) = Some (Func h)"
    and "handlers c = [middleware pre1 post1, middleware pre2 post2]"
    and "index c = - 1"
    and "list_all validStmt h"
  shows "\<exists>c'. handle r c = Inr c' \<and> trace c' = trace c @ pre1 @ pre2 @ logged h @ post2 @ post1"
proof -
  let ?c = "c\<lparr>Params := params, handlers := handlers c @ [Func h]\<rparr>"
  have "\<exists>c'. Next ?c = Inr c' \<and> trace c' = trace ?c @ pre1 @ pre2 @ logged h @ post2 @ post1"
    by (rule Next_two_middlewares) (simp_all add: assms)
  moreover have "handle r c = Next ?c"
    using assms(1,2) by (simp add: handle_def)
  ultimately show ?thesis by simp
qed

text \<open>Claim C6. When a handler calls \<open>Fail\<close> before any call of \<open>Next\<close>, no handler after
  it in the chain runs, whatever that handler does afterwards, and the post-phases of the
  middlewares before it still run, in reverse order. The status codes that the handler
  hands the writer are from 100 to 999; on any other code \<open>WriteHeader\<close> panics.\<close>

theorem short_circuit:
  assumes hs: "handlers c = map (\<lambda>(pre, post). middleware pre post) ms @
      Func (map Log preF @ CallFail code err # restF) # later"
    and ix: "index c = - 1"
    and vc: "validCode code"
    and vr: "list_all validStmt restF"
  shows "\<exists>c'. Next c = Inr c' \<and>
     trace c' = trace c @ concat (map fst ms) @ preF @ logged restF @ concat (rev (map snd ms)) \<and>
     int (length (handlers c)) \<le> index c'"
proof -
  let ?c = "c\<lparr>index := index c + 1\<rparr>"
  let ?F = "map Log preF @ CallFail code err # restF"
  have "\<exists>c'. forLoop (int (length (handlers ?c))) ?c = Inr c' \<and>
     trace c' = trace ?c @ concat (map fst ms) @ (preF @ logged restF) @
                concat (rev (map snd ms)) \<and>
     handlers c' = handlers ?c \<and> int (length (handlers ?c)) \<le> index c'"
  proof (rule chain_unwinds[where before = "[]" and later = later and body = ?F])
    show "handlers ?c = [] @ map (\<lambda>(pre, post). middleware pre post) ms @ Func ?F # later"
      using hs by simp
    show "index ?c = int (length [])"
      using ix by simp
    fix c0 :: "'a Context"
    assume "handlers c0 = handlers ?c" and "index c0 = int (length [] + length ms)"
    from Fail_valid[OF vc, of "c0\<lparr>trace := trace c0 @ preF\<rparr>" err] obtain cf where
      cf: "Fail (c0\<lparr>trace := trace c0 @ preF\<rparr>) code err = Inr cf"
        "trace cf = trace c0 @ preF" "handlers cf = handlers c0"
        "index cf = int (length (handlers c0))"
      by auto
    then have "int (length (handlers cf)) \<le> index cf" by simp
    from call_past_end[OF vr this] cf
    show "\<exists>c1. call ?F c0 = Inr c1 \<and> trace c1 = trace c0 @ preF @ logged restF \<and>
        handlers c1 = handlers c0 \<and> int (length (handlers c0)) \<le> index c1 + 1"
      by (auto simp: call_logs)
  qed
  then obtain c' where "forLoop (int (length (handlers ?c))) ?c = Inr c'"
    and "trace c' = trace ?c @ concat (map fst ms) @ (preF @ logged restF) @
                concat (rev (map snd ms))"
    and "int (length (handlers ?c)) \<le> index c'"
    by blast
  then show ?thesis by (intro exI[of _ c']) simp
qed

theorem plain_handler_continues_witness:
  "\<exists>c1. call [Log (1::nat), CallString 200 ''hello'' []]
          ((newContext ''GET'' ''/'')\<lparr>handlers :=
              [Func [Log 1, CallString 200 ''hello'' []], Func [Log 2]], index := 0\<rparr>) = Inr c1 \<and>
        trace c1 = [1] \<and> index c1 = 0 \<and>
        forLoop 2 ((newContext ''GET'' ''/'')\<lparr>handlers :=
              [Func [Log 1, CallString 200 ''hello'' []], Func [Log 2]], index := 0\<rparr>) =
          (case call [Log 2] (c1\<lparr>index := 1\<rparr>) of
             Inl e \<Rightarrow> Inl e
           | Inr c2 \<Rightarrow> forLoop 2 (c2\<lparr>index := index c2 + 1\<rparr>))"
  using plain_handler_continues[of
      "(newContext ''GET'' ''/'')\<lparr>handlers :=
          [Func [Log (1::nat), CallString 200 ''hello'' []], Func [Log 2]], index := 0\<rparr>"
      "[]" "[Log 1, CallString 200 ''hello'' []]" "[Log 2]" "[]"]
  by (simp add: newContext_def validCode_def)

text \<open>Claim C1 as the specification states it fails: the first handler never calls
  \<open>Next\<close>, and the second handler runs all the same.\<close>

theorem not_calling_Next_counterexample:
  "Next ((newContext ''GET'' ''/'')\<lparr>handlers := [Func [Log (1::nat)], Func [Log 2]]\<rparr>) =
   Inr ((newContext ''GET'' ''/'')\<lparr>handlers := [Func [Log 1], Func [Log 2]],
          index := 2, trace := [1, 2]\<rparr>)"
  by (simp add: newContext_def forLoop.simps)

theorem chain_order_witness:
  "\<exists>c'. Next ((newContext ''GET'' ''/'')\<lparr>handlers :=
             [Func [Log (1::nat), CallNext, Log 5], Func [Log 2, CallNext, Log 4],
              Func [Log 3, CallString 200 ''hello'' []]]\<rparr>) = Inr c' \<and>
        trace c' = [1, 2, 3, 4, 5]"
  using chain_order[of
      "(newContext ''GET'' ''/'')\<lparr>handlers :=
             [Func [Log (1::nat), CallNext, Log 5], Func [Log 2, CallNext, Log 4],
              Func [Log 3, CallString 200 ''hello'' []]]\<rparr>"
      "[1]" "[5]" "[2]" "[4]" "[Log 3, CallString 200 ''hello'' []]"]
  by (simp add: newContext_def middleware_def validCode_def)

theorem short_circuit_witness:
  "\<exists>c'. Next ((newContext ''GET'' ''/g2/hello/x'')\<lparr>handlers :=
             [Func [Log (1::nat), CallNext, Log 9],
              Func [Log 2, CallFail 500 ''Internal Server Error'', Log 3, CallNext, Log 4],
              Func [Log 7], NilHandler]\<rparr>) = Inr c' \<and>
        trace c' = [1, 2, 3, 4, 9] \<and> 4 \<le> index c'"
  using short_circuit[of
      "(newContext ''GET'' ''/g2/hello/x'')\<lparr>handlers :=
             [Func [Log (1::nat), CallNext, Log 9],
              Func [Log 2, CallFail 500 ''Internal Server Error'', Log 3, CallNext, Log 4],
              Func [Log 7], NilHandler]\<rparr>"
      "[([1], [9])]" "[2]" 500 "''Internal Server Error''" "[Log 3, CallNext, Log 4]"
      "[Func [Log 7], NilHandler]"]
  by (simp add: newContext_def middleware_def validCode_def)

section \<open>The prefix tree and the router\<close>

declare insert_node.simps [simp del] search.simps [simp del]

lemma isDynamic_dyn: "p \<noteq> [] \<Longrightarrow> isDynamic p = Inr (dyn p)"
  by (cases p) (simp_all add: isDynamic_def dyn_def)

lemma star_iff: "star p = (\<exists>q. p = CHR ''*'' # q)"
  by (cases p) (auto simp: star_def strings_HasPrefix_def)

lemma star_dyn: "star p \<Longrightarrow> dyn p"
  by (auto simp: star_iff dyn_def)

lemma matchChildLoop_firstMatch:
  "p \<noteq> [] \<Longrightarrow> matchChildLoop ch p = Inr (firstMatch ch p)"
proof (induction ch)
  case Nil
  show ?case by simp
next
  case (Cons child rest)
  then show ?case
    by (cases "firstMatch rest p") (simp_all add: isDynamic_dyn)
qed

lemma insert_node_ins:
  "height \<le> length parts \<Longrightarrow> \<forall>p \<in> set (drop height parts). p \<noteq> [] \<Longrightarrow>
   insert_node n pat parts height = Inr (ins n pat (drop height parts))"
proof (induction n pat parts height rule: insert_node.induct)
  case (1 n pat parts height)
  show ?case
  proof (cases "length parts = height")
    case True
    then show ?thesis by (subst insert_node.simps) simp
  next
    case False
    with "1.prems" have lt: "height < length parts" by simp
    then have nlt: "\<not> length parts < height" and le: "height + 1 \<le> length parts"
      by simp_all
    from lt have dr: "drop height parts = parts ! height # drop (Suc height) parts"
      by (simp add: Cons_nth_drop_Suc)
    with "1.prems" have ne: "parts ! height \<noteq> []"
      and rest: "\<forall>p \<in> set (drop (height + 1) parts). p \<noteq> []"
      by simp_all
    have mc: "matchChild n (parts ! height) = Inr (firstMatch (children n) (parts ! height))"
      by (simp add: matchChild_def matchChildLoop_firstMatch ne)
    show ?thesis
    proof (cases "firstMatch (children n) (parts ! height)")
      case None
      from "1.IH"(1)[OF False nlt mc None isDynamic_dyn[OF ne] le rest]
      have "insert_node (Node [] (parts ! height) [] (dyn (parts ! height))) pat parts (height + 1) =
          Inr (ins (Node [] (parts ! height) [] (dyn (parts ! height))) pat (drop (height + 1) parts))"
        by simp
      then show ?thesis
        using lt None mc dr by (subst insert_node.simps) (simp add: isDynamic_dyn ne)
    next
      case (Some i)
      from "1.IH"(2)[OF False nlt mc Some le rest]
      have "insert_node (children n ! i) pat parts (height + 1) =
          Inr (ins (children n ! i) pat (drop (height + 1) parts))"
        by simp
      then show ?thesis
        using lt Some mc dr by (subst insert_node.simps) simp
    qed
  qed
qed

lemma firstFound_Inr:
  "firstFound (map (\<lambda>x. Inr (f x)) xs) = Inr (firstSome (map f xs))"
proof (induction xs)
  case Nil
  show ?case by simp
next
  case (Cons x xs)
  then show ?case by (cases "f x") simp_all
qed

lemma search_srch:
  "height \<le> length parts \<Longrightarrow> search n parts height = Inr (srch n (drop height parts))"
proof (induction n parts height rule: search.induct)
  case (1 n parts height)
  show ?case
  proof (cases "length parts = height")
    case True
    then show ?thesis by (subst search.simps) simp
  next
    case False
    with "1.prems" have lt: "height < length parts" by simp
    then have dr: "drop height parts = parts ! height # drop (Suc height) parts"
      by (simp add: Cons_nth_drop_Suc)
    show ?thesis
    proof (cases "star (part n)")
      case True
      then show ?thesis using dr by (subst search.simps) (simp add: star_def)
    next
      case False
      have "\<forall>child \<in> set (matchChildren n (parts ! height)).
          search child parts (height + 1) = Inr (srch child (drop (height + 1) parts))"
        using "1.IH" lt False \<open>length parts \<noteq> height\<close> by (simp add: star_def)
      then have m: "map (\<lambda>child. search child parts (height + 1)) (matchChildren n (parts ! height)) =
          map (\<lambda>child. Inr (srch child (drop (height + 1) parts))) (matchChildren n (parts ! height))"
        by simp
      have s: "search n parts height =
          firstFound (map (\<lambda>child. search child parts (height + 1))
                          (matchChildren n (parts ! height)))"
        using lt False by (subst search.simps) (simp add: star_def)
      show ?thesis
        unfolding s m firstFound_Inr using False dr by simp
    qed
  qed
qed

lemma parseLoop_acc: "parseLoop vs acc = acc @ parseLoop vs []"
proof (induction vs arbitrary: acc)
  case Nil
  show ?case by simp
next
  case (Cons item vs)
  show ?case
  proof (cases item)
    case Nil
    with Cons.IH[of acc] show ?thesis by simp
  next
    case (Cons c cs)
    with Cons.IH[of "acc @ [item]"] Cons.IH[of "[item]"] show ?thesis by simp
  qed
qed

lemma parseLoop_nonempty: "\<forall>p \<in> set (parseLoop vs []). p \<noteq> []"
proof (induction vs)
  case Nil
  show ?case by simp
next
  case (Cons item vs)
  show ?case
  proof (cases item)
    case Nil
    with Cons.IH show ?thesis by simp
  next
    case (Cons c cs)
    with Cons.IH parseLoop_acc[of vs "[item]"] show ?thesis by auto
  qed
qed

lemma parsePattern_nonempty: "p \<in> set (parsePattern s) \<Longrightarrow> p \<noteq> []"
  using parseLoop_nonempty by (auto simp: parsePattern_def)



lemma part_ins [simp]: "part (ins n pat ps) = part n"
  by (cases ps) (simp_all split: option.splits)

lemma isWild_ins [simp]: "isWild (ins n pat ps) = isWild n"
  by (cases ps) (simp_all split: option.splits)

lemma firstMatch_Some:
  "firstMatch ch p = Some i \<Longrightarrow>
   i < length ch \<and> (part (ch ! i) = p \<or> (dyn p \<and> isWild (ch ! i)))"
proof (induction ch arbitrary: i)
  case Nil
  then show ?case by simp
next
  case (Cons child rest)
  then show ?case by (auto split: if_splits)
qed

lemma firstMatch_cong:
  "map part ch = map part ch' \<Longrightarrow> map isWild ch = map isWild ch' \<Longrightarrow>
   firstMatch ch p = firstMatch ch' p"
proof (induction ch arbitrary: ch')
  case Nil
  then show ?case by simp
next
  case (Cons child rest)
  then obtain child' rest' where "ch' = child' # rest'" by (cases ch') auto
  with Cons show ?case by auto
qed

lemma firstMatch_update:
  "part c = part (ch ! i) \<Longrightarrow> isWild c = isWild (ch ! i) \<Longrightarrow>
   firstMatch (ch[i := c]) p = firstMatch ch p"
proof (cases "i < length ch")
  case True
  assume "part c = part (ch ! i)" "isWild c = isWild (ch ! i)"
  then have "map part (ch[i := c]) = map part ch" "map isWild (ch[i := c]) = map isWild ch"
    using True by (simp_all add: map_update list_update_same_conv)
  then show ?thesis by (rule firstMatch_cong)
next
  case False
  then show ?thesis by (simp add: list_update_beyond)
qed

lemma firstMatch_append_None:
  "firstMatch ch p = None \<Longrightarrow> firstMatch (ch @ [c]) p =
     (if part c = p \<or> (dyn p \<and> isWild c) then Some (length ch) else None)"
  by (induction ch) (auto split: if_splits)


lemma ins_idem: "ins (ins n pat ps) pat ps = ins n pat ps"
proof (induction ps arbitrary: n)
  case Nil
  show ?case by simp
next
  case (Cons p ps)
  show ?case
  proof (cases "firstMatch (children n) p")
    case None
    let ?c = "ins (Node [] p [] (dyn p)) pat ps"
    have "firstMatch (children n @ [?c]) p = Some (length (children n))"
      using None by (simp add: firstMatch_append_None)
    with None Cons.IH[of "Node [] p [] (dyn p)"] show ?thesis by simp
  next
    case (Some i)
    let ?c = "ins (children n ! i) pat ps"
    have "firstMatch ((children n)[i := ?c]) p = Some i"
      using Some by (simp add: firstMatch_update)
    moreover have "i < length (children n)"
      using Some by (simp add: firstMatch_Some)
    ultimately show ?thesis using Some Cons.IH[of "children n ! i"] by simp
  qed
qed

lemma addRoute_ins:
  "addRoute r method pat h =
     Inr \<lparr>roots = (roots r)(method \<mapsto> ins (rootOf r method) pat (parsePattern pat)),
          handlers = (router.handlers r)(method @ ''-'' @ pat \<mapsto> h)\<rparr>"
proof -
  have "insert_node (rootOf r method) pat (parsePattern pat) 0 =
      Inr (ins (rootOf r method) pat (drop 0 (parsePattern pat)))"
    by (rule insert_node_ins) (auto dest: parsePattern_nonempty)
  then show ?thesis by (simp add: addRoute_def rootOf_def Let_def)
qed

text \<open>Claim C8. Registering the same method and pattern twice, with handlers \<open>h1\<close> and
  then \<open>h2\<close>, never panics, leaves the tries exactly as the first registration made them
  (no node is added), and gives the router that the single registration with \<open>h2\<close>
  gives: the handler map holds \<open>h2\<close> under the key.\<close>

theorem addRoute_twice:
  "\<exists>r1 r2. addRoute r method pat h1 = Inr r1 \<and> addRoute r1 method pat h2 = Inr r2 \<and>
     roots r2 = roots r1 \<and> router.handlers r2 (method @ ''-'' @ pat) = Some h2 \<and>
     addRoute r method pat h2 = Inr r2"
  by (simp add: addRoute_ins rootOf_def ins_idem)

lemma wf_iff:
  "wf path n =
     ((pattern n = [] \<or> list_all2 compat (parsePattern (pattern n)) path) \<and>
      (\<forall>c \<in> set (children n). part c \<noteq> [] \<and> isWild c = dyn (part c) \<and> wf (path @ [part c]) c))"
  by (cases n) simp

lemma wf_ins:
  "wf path n \<Longrightarrow> list_all2 compat seen path \<Longrightarrow> parsePattern pat = seen @ ps \<Longrightarrow>
   \<forall>p \<in> set ps. p \<noteq> [] \<Longrightarrow> wf path (ins n pat ps)"
proof (induction ps arbitrary: n path seen)
  case Nil
  then show ?case by (simp add: wf_iff[of path])
next
  case (Cons p ps)
  from Cons.prems(4) have pne: "p \<noteq> []" and rest: "\<forall>q \<in> set ps. q \<noteq> []" by simp_all
  from Cons.prems(3) have pp: "parsePattern pat = (seen @ [p]) @ ps" by simp
  from Cons.prems(1) have
    pat: "pattern n = [] \<or> list_all2 compat (parsePattern (pattern n)) path"
    and ch: "\<forall>c \<in> set (children n). part c \<noteq> [] \<and> isWild c = dyn (part c) \<and> wf (path @ [part c]) c"
    by (simp_all add: wf_iff[of path n])
  show ?case
  proof (cases "firstMatch (children n) p")
    case None
    let ?new = "Node [] p [] (dyn p)"
    have "list_all2 compat [p] [p]"
      by (simp add: compat_def)
    with Cons.prems(2) have "list_all2 compat (seen @ [p]) (path @ [p])"
      by (rule list_all2_appendI)
    moreover have "wf (path @ [p]) ?new" by simp
    ultimately have "wf (path @ [p]) (ins ?new pat ps)"
      using pp rest by (intro Cons.IH)
    with None pat ch pne show ?thesis by (simp add: wf_iff[of path])
  next
    case (Some i)
    let ?c = "children n ! i"
    from firstMatch_Some[OF Some] have i: "i < length (children n)"
      and m: "part ?c = p \<or> (dyn p \<and> isWild ?c)"
      by simp_all
    from i ch have c: "part ?c \<noteq> []" "isWild ?c = dyn (part ?c)" "wf (path @ [part ?c]) ?c"
      by simp_all
    have "compat p (part ?c)" using m c(2) by (auto simp: compat_def)
    then have "list_all2 compat [p] [part ?c]" by simp
    with Cons.prems(2) have "list_all2 compat (seen @ [p]) (path @ [part ?c])"
      by (rule list_all2_appendI)
    with c(3) have "wf (path @ [part ?c]) (ins ?c pat ps)"
      using pp rest by (intro Cons.IH)
    moreover have "\<forall>c \<in> set ((children n)[i := ins ?c pat ps]).
        c = ins ?c pat ps \<or> c \<in> set (children n)"
      using set_update_subset_insert[of "children n" i "ins ?c pat ps"] by auto
    ultimately show ?thesis
      using Some pat ch c by (simp add: wf_iff[of path]) (metis part_ins isWild_ins)
  qed
qed

lemma firstSome_Some:
  "firstSome (map f xs) = Some m \<Longrightarrow> \<exists>x \<in> set xs. f x = Some m"
proof (induction xs)
  case Nil
  then show ?case by simp
next
  case (Cons x xs)
  then show ?case by (cases "f x") auto
qed

lemma matchChildren_subset: "c \<in> set (matchChildren n p) \<Longrightarrow> c \<in> set (children n)"
  by (auto simp: matchChildren_def)

lemma srch_wf:
  "wf path n \<Longrightarrow> srch n segs = Some m \<Longrightarrow>
   pattern m \<noteq> [] \<and> length (parsePattern (pattern m)) \<le> length path + length segs"
proof (induction segs arbitrary: n path)
  case Nil
  then show ?case
    by (auto simp: wf_iff[of path n] split: if_splits dest: list_all2_lengthD)
next
  case (Cons p ps)
  show ?case
  proof (cases "star (part n)")
    case True
    with Cons.prems show ?thesis
      by (auto simp: wf_iff[of path n] split: if_splits dest: list_all2_lengthD)
  next
    case False
    with Cons.prems(2) obtain c where c: "c \<in> set (matchChildren n p)" "srch c ps = Some m"
      by (auto dest: firstSome_Some)
    then have "wf (path @ [part c]) c"
      using Cons.prems(1) by (auto simp: wf_iff[of path n] dest: matchChildren_subset)
    from Cons.IH[OF this c(2)] show ?thesis by simp
  qed
qed

lemma paramLoop_no_panic:
  "\<forall>p \<in> set ps. p \<noteq> [] \<Longrightarrow> idx + length ps \<le> length searchParts \<Longrightarrow>
   \<exists>params'. paramLoop ps idx searchParts params = Inr params'"
proof (induction ps arbitrary: idx params)
  case Nil
  show ?case by simp
next
  case (Cons p ps)
  then obtain c name where p: "p = c # name" by (cases p) auto
  from Cons.prems have "\<forall>q \<in> set ps. q \<noteq> []" "(idx + 1) + length ps \<le> length searchParts"
    by simp_all
  note ih = Cons.IH[OF this]
  show ?case
  proof (cases "c = CHR '':''")
    case True
    from ih[of "params(name \<mapsto> searchParts ! idx)"] obtain q where
      "paramLoop ps (idx + 1) searchParts (params(name \<mapsto> searchParts ! idx)) = Inr q" ..
    then show ?thesis using p True Cons.prems(2) by simp
  next
    case False
    from ih[of params] obtain q where "paramLoop ps (idx + 1) searchParts params = Inr q" ..
    then show ?thesis using p False Cons.prems(2) by simp
  qed
qed

lemma routerWf_newRouter: "routerWf newRouter"
  by (simp add: routerWf_def newRouter_def)

lemma rootOf_wf: "routerWf r \<Longrightarrow> wf [] (rootOf r method)"
  by (auto simp: routerWf_def rootOf_def split: option.splits)

lemma routerWf_addRoute:
  assumes "routerWf r" and "addRoute r method pat h = Inr r'"
  shows "routerWf r'"
proof -
  have "wf [] (ins (rootOf r method) pat (parsePattern pat))"
    using rootOf_wf[OF assms(1)]
    by (rule wf_ins[where seen = "[]"]) (auto dest: parsePattern_nonempty)
  with assms show ?thesis
    by (auto simp: addRoute_ins routerWf_def split: if_splits)
qed

lemma addRoutes_wf:
  "routerWf r \<Longrightarrow> \<exists>r'. addRoutes r regs = Inr r' \<and> routerWf r'"
proof (induction regs arbitrary: r)
  case Nil
  then show ?case by simp
next
  case (Cons reg regs)
  obtain m pat h where reg: "reg = (m, pat, h)" by (cases reg)
  obtain r1 where r1: "addRoute r m pat h = Inr r1" by (simp add: addRoute_ins)
  with Cons.prems have "routerWf r1" by (rule routerWf_addRoute)
  from Cons.IH[OF this] r1 reg show ?case by simp
qed

lemma getRoute_no_panic:
  assumes "routerWf r"
  shows "\<exists>res. getRoute r method path = Inr res"
proof (cases "roots r method")
  case None
  then show ?thesis by (simp add: getRoute_def)
next
  case (Some root)
  with assms have wf: "wf [] root" by (simp add: routerWf_def)
  have s: "search root (parsePattern path) 0 = Inr (srch root (parsePattern path))"
    using search_srch[of 0 "parsePattern path" root] by simp
  show ?thesis
  proof (cases "srch root (parsePattern path)")
    case None
    with Some s show ?thesis by (simp add: getRoute_def)
  next
    case (Some m)
    from srch_wf[OF wf Some]
    have "0 + length (parsePattern (pattern m)) \<le> length (parsePattern path)" by simp
    with paramLoop_no_panic[of "parsePattern (pattern m)" 0 "parsePattern path" Map.empty]
    obtain params where "paramLoop (parsePattern (pattern m)) 0 (parsePattern path) Map.empty = Inr params"
      by (auto dest: parsePattern_nonempty)
    with Some \<open>roots r method = Some root\<close> s show ?thesis by (simp add: getRoute_def)
  qed
qed

text \<open>Claim C10. No segment that \<open>parsePattern\<close> returns is empty, and for every sequence
  of registrations made on a new router and every request, neither \<open>addRoute\<close> nor
  \<open>getRoute\<close> panics: each returns a result.\<close>

theorem routing_never_panics:
  "[] \<notin> set (parsePattern s) \<and>
   (\<exists>r. addRoutes newRouter regs = Inr r \<and> (\<exists>res. getRoute r method path = Inr res))"
proof -
  obtain r where "addRoutes newRouter regs = Inr r" "routerWf r"
    using addRoutes_wf[OF routerWf_newRouter] by blast
  with getRoute_no_panic[of r] show ?thesis
    by (auto dest: parsePattern_nonempty)
qed

theorem addRoute_twice_witness:
  "\<exists>r1 r2. addRoute (newRouter :: nat router) ''GET'' ''/p/:lang/doc'' 1 = Inr r1 \<and>
     addRoute r1 ''GET'' ''/p/:lang/doc'' 2 = Inr r2 \<and>
     roots r2 = roots r1 \<and> router.handlers r2 (''GET'' @ ''-'' @ ''/p/:lang/doc'') = Some 2 \<and>
     addRoute newRouter ''GET'' ''/p/:lang/doc'' 2 = Inr r2"
  by (rule addRoute_twice)

theorem routing_never_panics_witness:
  "[] \<notin> set (parsePattern ''/static//*filepath/x'') \<and>
   (\<exists>r. addRoutes (newRouter :: nat router)
          [(''GET'', ''/static/*filepath'', 1), (''GET'', ''/p/:lang/doc'', 2)] = Inr r \<and>
        (\<exists>res. getRoute r ''GET'' ''/p/go/doc'' = Inr res))"
  by (rule routing_never_panics)

lemma pats_iff:
  "pats n = (if pattern n = [] then {} else {pattern n}) \<union> (\<Union>c \<in> set (children n). pats c)"
  by (cases n) simp

lemma pats_ins: "pats (ins n pat ps) \<subseteq> insert pat (pats n)"
proof (induction ps arbitrary: n)
  case Nil
  show ?case by (auto simp: pats_iff[of "Node pat (part n) (children n) (isWild n)"] pats_iff[of n])
next
  case (Cons p ps)
  show ?case
  proof (cases "firstMatch (children n) p")
    case None
    have "pats (ins (Node [] p [] (dyn p)) pat ps) \<subseteq> insert pat (pats (Node [] p [] (dyn p)))"
      by (rule Cons.IH)
    then have "pats (ins (Node [] p [] (dyn p)) pat ps) \<subseteq> {pat}" by simp
    with None show ?thesis by (auto simp: pats_iff[of n])
  next
    case (Some i)
    let ?c = "children n ! i"
    from firstMatch_Some[OF Some] have i: "i < length (children n)" by simp
    have sub: "pats (ins ?c pat ps) \<subseteq> insert pat (pats ?c)" by (rule Cons.IH)
    from i have "?c \<in> set (children n)" by simp
    then have "pats ?c \<subseteq> pats n" by (auto simp: pats_iff[of n])
    moreover have "\<And>c. c \<in> set ((children n)[i := ins ?c pat ps]) \<Longrightarrow>
        c = ins ?c pat ps \<or> c \<in> set (children n)"
      using set_update_subset_insert[of "children n" i] by auto
    ultimately show ?thesis
      using Some sub by (auto simp: pats_iff[of n]) blast+
  qed
qed

lemma srch_pats: "srch n segs = Some m \<Longrightarrow> pattern m \<in> pats n"
proof (induction segs arbitrary: n)
  case Nil
  then show ?case by (auto simp: pats_iff[of n] split: if_splits)
next
  case (Cons p ps)
  show ?case
  proof (cases "star (part n)")
    case True
    with Cons.prems show ?thesis by (auto simp: pats_iff[of n] split: if_splits)
  next
    case False
    with Cons.prems obtain c where c: "c \<in> set (matchChildren n p)" "srch c ps = Some m"
      by (auto dest: firstSome_Some)
    from Cons.IH[OF c(2)] matchChildren_subset[OF c(1)] show ?thesis
      by (auto simp: pats_iff[of n])
  qed
qed


lemma matchChildren_same_children:
  "children n' = children n \<Longrightarrow> matchChildren n' p = matchChildren n p"
  by (simp add: matchChildren_def)

lemma firstSome_exists:
  "x \<in> set xs \<Longrightarrow> f x \<noteq> None \<Longrightarrow> firstSome (map f xs) \<noteq> None"
proof (induction xs)
  case Nil
  then show ?case by simp
next
  case (Cons y ys)
  then show ?case by (cases "f y") auto
qed

lemma firstMatch_static:
  "\<not> dyn p \<Longrightarrow> firstMatch ch p = Some i \<Longrightarrow> part c' = p \<Longrightarrow>
   find (\<lambda>child. part child = p) (ch[i := c']) = Some c'"
proof (induction ch arbitrary: i)
  case Nil
  then show ?case by simp
next
  case (Cons child rest)
  then show ?case by (cases i) (auto split: if_splits)
qed

lemma firstMatch_static_None:
  "\<not> dyn p \<Longrightarrow> firstMatch ch p = None \<Longrightarrow> part c' = p \<Longrightarrow>
   find (\<lambda>child. part child = p) (ch @ [c']) = Some c'"
  by (induction ch) (auto split: if_splits)

lemma staticNode_ins:
  "\<forall>p \<in> set ps. \<not> dyn p \<Longrightarrow> pat \<noteq> [] \<Longrightarrow> staticNode (ins n pat ps) ps \<noteq> None"
proof (induction ps arbitrary: n)
  case Nil
  then show ?case by simp
next
  case (Cons p ps)
  then have nd: "\<not> dyn p" and rest: "\<forall>q \<in> set ps. \<not> dyn q" by simp_all
  show ?case
  proof (cases "firstMatch (children n) p")
    case None
    let ?c = "ins (Node [] p [] (dyn p)) pat ps"
    have "find (\<lambda>child. part child = p) (children n @ [?c]) = Some ?c"
      using nd None by (rule firstMatch_static_None) simp
    with None Cons.IH[OF rest Cons.prems(2), of "Node [] p [] (dyn p)"] show ?thesis by simp
  next
    case (Some i)
    let ?c = "ins (children n ! i) pat ps"
    have "find (\<lambda>child. part child = p) ((children n)[i := ?c]) = Some ?c"
      using nd Some
    proof (rule firstMatch_static)
      from firstMatch_Some[OF Some] nd show "part ?c = p" by simp
    qed
    with Some Cons.IH[OF rest Cons.prems(2), of "children n ! i"] show ?thesis by simp
  qed
qed

lemma find_update_same_part:
  assumes "find (\<lambda>child. part child = s) ch = Some c" and "part c' = part (ch ! i)"
  shows "find (\<lambda>child. part child = s) (ch[i := c']) = Some c \<or>
         (c = ch ! i \<and> i < length ch \<and> find (\<lambda>child. part child = s) (ch[i := c']) = Some c')"
  using assms
proof (induction ch arbitrary: i)
  case Nil
  then show ?case by simp
next
  case (Cons child rest)
  show ?case
  proof (cases i)
    case 0
    with Cons.prems show ?thesis by (auto split: if_splits)
  next
    case (Suc k)
    with Cons.prems Cons.IH[of k] show ?thesis by (auto split: if_splits)
  qed
qed

lemma find_append_Some: "find P xs = Some x \<Longrightarrow> find P (xs @ ys) = Some x"
  by (induction xs) (auto split: if_splits)

lemma staticNode_kept:
  "staticNode n segs \<noteq> None \<Longrightarrow> (pat = [] \<longrightarrow> ps = [] \<and> segs \<noteq> []) \<Longrightarrow>
   staticNode (ins n pat ps) segs \<noteq> None"
proof (induction ps arbitrary: n segs)
  case Nil
  then show ?case by (cases segs) (auto split: if_splits)
next
  case (Cons p ps)
  then have pat: "pat \<noteq> []" by simp
  show ?case
  proof (cases segs)
    case Nil
    with Cons.prems show ?thesis by (simp split: option.splits if_splits)
  next
    case segs: (Cons s ss)
    with Cons.prems(1) obtain c where
      c: "find (\<lambda>child. part child = s) (children n) = Some c" "staticNode c ss \<noteq> None"
      by (auto split: option.splits)
    let ?n' = "ins n pat (p # ps)"
    have "\<exists>c'. find (\<lambda>child. part child = s) (children ?n') = Some c' \<and> staticNode c' ss \<noteq> None"
    proof (cases "firstMatch (children n) p")
      case None
      then have "children ?n' = children n @ [ins (Node [] p [] (dyn p)) pat ps]" by simp
      with c find_append_Some[OF c(1)] show ?thesis by simp
    next
      case (Some i)
      let ?c' = "ins (children n ! i) pat ps"
      from Some have ch': "children ?n' = (children n)[i := ?c']" by simp
      from find_update_same_part[OF c(1), of ?c' i]
      consider "find (\<lambda>child. part child = s) ((children n)[i := ?c']) = Some c"
        | "c = children n ! i" "find (\<lambda>child. part child = s) ((children n)[i := ?c']) = Some ?c'"
        by auto
      then show ?thesis
      proof cases
        case 1
        with c(2) ch' show ?thesis by simp
      next
        case 2
        have "staticNode (ins c pat ps) ss \<noteq> None"
          using c(2) by (rule Cons.IH) (simp add: pat)
        with 2 ch' show ?thesis by simp
      qed
    qed
    then show ?thesis using segs by (auto simp del: ins.simps)
  qed
qed

lemma find_filter_head: "find P xs = Some x \<Longrightarrow> \<exists>ys. filter P xs = x # ys"
  by (induction xs) (auto split: if_splits)

lemma staticNode_srch:
  "\<forall>p \<in> set segs. \<not> dyn p \<Longrightarrow> \<not> star (part n) \<Longrightarrow> staticNode n segs = Some m \<Longrightarrow>
   srch n segs = Some m"
proof (induction segs arbitrary: n)
  case Nil
  then show ?case by simp
next
  case (Cons s ss)
  from Cons.prems(3) obtain c where
    c: "find (\<lambda>child. part child = s) (children n) = Some c" "staticNode c ss = Some m"
    by (auto split: option.splits)
  from c(1) have "part c = s" by (auto simp: find_Some_iff)
  with Cons.prems(1) have "\<not> star (part c)" by (auto dest: star_dyn)
  with Cons.prems(1) c(2) have sc: "srch c ss = Some m" by (intro Cons.IH) simp_all
  from find_filter_head[OF c(1)] obtain ys where
    "filter (\<lambda>child. part child = s) (children n) = c # ys" ..
  then have "firstSome (map (\<lambda>child. srch child ss) (matchChildren n s)) = Some m"
    using sc by (simp add: matchChildren_def)
  with Cons.prems(2) show ?case by simp
qed

lemma staticNode_pattern:
  "wf path n \<Longrightarrow> staticNode n segs = Some m \<Longrightarrow> \<forall>p \<in> set segs. \<not> dyn p \<Longrightarrow>
   \<exists>pre. list_all2 compat pre path \<and> parsePattern (pattern m) = pre @ segs"
proof (induction segs arbitrary: n path)
  case Nil
  then show ?case by (auto simp: wf_iff[of path n] split: if_splits)
next
  case (Cons s ss)
  from Cons.prems(2) obtain c where
    c: "find (\<lambda>child. part child = s) (children n) = Some c" "staticNode c ss = Some m"
    by (auto split: option.splits)
  from c(1) have pc: "part c = s" "c \<in> set (children n)"
    by (auto simp: find_Some_iff)
  with Cons.prems(1) have "wf (path @ [s]) c" by (auto simp: wf_iff[of path n])
  from Cons.IH[OF this c(2)] Cons.prems(3) obtain pre where
    pre: "list_all2 compat pre (path @ [s])" "parsePattern (pattern m) = pre @ ss"
    by auto
  from pre(1) obtain us x where us: "pre = us @ [x]" "list_all2 compat us path" "compat x s"
    by (auto simp: list_all2_append2 list_all2_Cons2)
  from us(3) Cons.prems(3) have "x = s" by (auto simp: compat_def)
  with us pre(2) show ?case by auto
qed

lemma paramLoop_static:
  "\<forall>p \<in> set ps. p \<noteq> [] \<and> \<not> dyn p \<Longrightarrow> paramLoop ps idx searchParts params = Inr params"
proof (induction ps arbitrary: idx)
  case Nil
  show ?case by simp
next
  case (Cons p ps)
  then obtain c name where "p = c # name" "c \<noteq> CHR '':''" "c \<noteq> CHR ''*''"
    by (cases p) (auto simp: dyn_def)
  with Cons show ?case by simp
qed

lemma rootOf_addRoute:
  "addRoute r m pat h = Inr r' \<Longrightarrow>
   rootOf r' m' = (if m' = m then ins (rootOf r m) pat (parsePattern pat) else rootOf r m')"
  by (auto simp: addRoute_ins rootOf_def)

lemma registered_snoc:
  "registered (regs @ [(m, pat, h)]) m' = registered regs m' \<union> (if m' = m then {pat} else {})"
  by (auto simp: registered_def)

lemma built_newRouter: "built [] newRouter"
  by (simp add: built_def routerWf_def rootOf_def newRouter_def registered_def)

lemma built_addRoute:
  assumes b: "built regs r" and a: "addRoute r m pat h = Inr r'"
  shows "built (regs @ [(m, pat, h)]) r'"
proof -
  note ro = rootOf_addRoute[OF a]
  from b have wf: "routerWf r"
    and pr: "\<And>m. part (rootOf r m) = []"
    and ps: "\<And>m. pats (rootOf r m) \<subseteq> registered regs m"
    and st: "\<And>m S. S \<in> registered regs m \<Longrightarrow> staticPat S \<Longrightarrow>
       staticNode (rootOf r m) (parsePattern S) \<noteq> None"
    by (auto simp: built_def)
  have 1: "routerWf r'" using wf a by (rule routerWf_addRoute)
  have 2: "part (rootOf r' m') = [] \<and> pats (rootOf r' m') \<subseteq> registered (regs @ [(m, pat, h)]) m'"
    for m'
    using pr[of m'] ps[of m'] pats_ins[of "rootOf r m" pat "parsePattern pat"]
    by (auto simp: ro registered_snoc)
  have 3: "staticNode (rootOf r' m') (parsePattern S) \<noteq> None"
    if S: "S \<in> registered (regs @ [(m, pat, h)]) m'" "staticPat S" for m' S
  proof (cases "m' = m")
    case False
    with S st[of S m'] show ?thesis by (simp add: ro registered_snoc)
  next
    case True
    show ?thesis
    proof (cases "S \<in> registered regs m")
      case True
      from st[OF this S(2)] have "staticNode (rootOf r m) (parsePattern S) \<noteq> None" .
      moreover have "pat = [] \<longrightarrow> parsePattern pat = [] \<and> parsePattern S \<noteq> []"
        using S(2) by (auto simp: staticPat_def parsePattern_def)
      ultimately have "staticNode (ins (rootOf r m) pat (parsePattern pat)) (parsePattern S) \<noteq> None"
        by (rule staticNode_kept)
      with \<open>m' = m\<close> show ?thesis by (simp add: ro)
    next
      case False
      with S(1) \<open>m' = m\<close> have "S = pat" by (simp add: registered_snoc)
      moreover from S(2) have "S \<noteq> []" by (auto simp: staticPat_def parsePattern_def)
      moreover from S(2) have "\<forall>p \<in> set (parsePattern S). \<not> dyn p"
        by (simp add: staticPat_def list_all_iff)
      ultimately have "staticNode (ins (rootOf r m) pat (parsePattern pat)) (parsePattern S) \<noteq> None"
        using staticNode_ins[of "parsePattern S" S "rootOf r m"] by simp
      with \<open>m' = m\<close> show ?thesis by (simp add: ro)
    qed
  qed
  from 1 2 3 show ?thesis unfolding built_def by blast
qed

lemma addRoutes_built:
  "built regs0 r \<Longrightarrow> \<exists>r'. addRoutes r regs = Inr r' \<and> built (regs0 @ regs) r'"
proof (induction regs arbitrary: r regs0)
  case Nil
  then show ?case by simp
next
  case (Cons reg regs)
  obtain m pat h where reg: "reg = (m, pat, h)" by (cases reg)
  obtain r1 where r1: "addRoute r m pat h = Inr r1" by (simp add: addRoute_ins)
  with Cons.prems have "built (regs0 @ [(m, pat, h)]) r1" by (rule built_addRoute)
  from Cons.IH[OF this] r1 reg show ?case by simp
qed

lemma addRoutes_newRouter_built:
  "addRoutes newRouter regs = Inr r \<Longrightarrow> built regs r"
  using addRoutes_built[OF built_newRouter, of regs] by auto

lemma srch_empty_root: "srch (Node [] [] [] False) segs = None"
  by (cases segs) (simp_all add: star_iff matchChildren_def)

lemma getRoute_srch:
  "getRoute r m path =
     (case srch (rootOf r m) (parsePattern path) of
        None \<Rightarrow> Inr None
      | Some n \<Rightarrow>
          (case paramLoop (parsePattern (pattern n)) 0 (parsePattern path) Map.empty of
             Inl e \<Rightarrow> Inl e
           | Inr params \<Rightarrow> Inr (Some (n, params))))"
proof (cases "roots r m")
  case None
  then show ?thesis by (simp add: getRoute_def rootOf_def srch_empty_root)
next
  case (Some root)
  have "search root (parsePattern path) 0 = Inr (srch root (parsePattern path))"
    using search_srch[of 0 "parsePattern path" root] by simp
  with Some show ?thesis by (simp add: getRoute_def rootOf_def split: option.splits)
qed

text \<open>Claim C2. Whatever else is registered, a request whose segments are those of a
  registered static pattern (one without \<open>:\<close> and \<open>*\<close> segments) resolves to the node of
  that pattern: the stored pattern has the very same segments, is registered, is no
  pattern with a dynamic segment, and no parameter is bound.\<close>

theorem static_over_dynamic:
  assumes regs: "addRoutes newRouter regs = Inr r"
    and S: "(m, S, h) \<in> set regs" "staticPat S"
    and path: "parsePattern path = parsePattern S"
  shows "\<exists>n. getRoute r m path = Inr (Some (n, Map.empty)) \<and>
     parsePattern (pattern n) = parsePattern S \<and>
     pattern n \<in> registered regs m \<and>
     (\<forall>D. (\<exists>p \<in> set (parsePattern D). dyn p) \<longrightarrow> pattern n \<noteq> D)"
proof -
  from regs have b: "built regs r" by (rule addRoutes_newRouter_built)
  let ?root = "rootOf r m"
  from S(1) have "S \<in> registered regs m" by (auto simp: registered_def)
  with b S(2) have "staticNode ?root (parsePattern S) \<noteq> None"
    unfolding built_def by blast
  then obtain n where n: "staticNode ?root (parsePattern S) = Some n"
    by auto
  from S(2) have nd: "\<forall>p \<in> set (parsePattern S). \<not> dyn p"
    by (simp add: staticPat_def list_all_iff)
  from b have "part ?root = []" by (simp add: built_def)
  then have "\<not> star (part ?root)" by (simp add: star_iff)
  with nd have sr: "srch ?root (parsePattern S) = Some n"
    using n by (rule staticNode_srch)
  from b have "wf [] ?root" by (simp add: built_def rootOf_wf)
  from staticNode_pattern[OF this n nd] have pp: "parsePattern (pattern n) = parsePattern S"
    by simp
  have "paramLoop (parsePattern S) 0 (parsePattern S) Map.empty = Inr Map.empty"
    by (rule paramLoop_static) (use nd in \<open>auto dest: parsePattern_nonempty\<close>)
  with sr pp path have "getRoute r m path = Inr (Some (n, Map.empty))"
    by (simp add: getRoute_srch)
  moreover from srch_pats[OF sr] b have "pattern n \<in> registered regs m"
    by (auto simp: built_def)
  moreover have "\<forall>D. (\<exists>p \<in> set (parsePattern D). dyn p) \<longrightarrow> pattern n \<noteq> D"
    using pp nd by auto
  ultimately show ?thesis using pp by blast
qed

lemma find_app:
  "find P (xs @ ys) = (case find P xs of None \<Rightarrow> find P ys | Some x \<Rightarrow> Some x)"
  by (induction xs) simp_all

lemma firstSome_find_concat:
  "firstSome (map (\<lambda>c. find P (f c)) cs) = find P (concat (map f cs))"
proof (induction cs)
  case Nil
  show ?case by simp
next
  case (Cons c cs)
  then show ?case by (cases "find P (f c)") (simp_all add: find_app)
qed

lemma srch_terminals: "srch n segs = find (\<lambda>t. pattern t \<noteq> []) (terminals n segs)"
proof (induction segs arbitrary: n)
  case Nil
  show ?case by simp
next
  case (Cons p ps)
  show ?case
  proof (cases "star (part n)")
    case True
    then show ?thesis by simp
  next
    case False
    then show ?thesis by (simp add: Cons.IH firstSome_find_concat)
  qed
qed

text \<open>Claim C9, as the code has it. \<open>search\<close> returns the first terminal node with a pattern
  among the terminal nodes that the segments lead to, the candidates of every level taken
  in the order of \<open>matchChildren\<close>. So the lookup fails, and \<open>getRoute\<close> returns nil and
  nil, exactly when every terminal node the segments lead to has the empty pattern.\<close>

theorem lookup_fails_iff:
  assumes "roots r m = Some root"
  shows "search root (parsePattern path) 0 =
       Inr (find (\<lambda>t. pattern t \<noteq> []) (terminals root (parsePattern path))) \<and>
     (getRoute r m path = Inr None) =
       list_all (\<lambda>t. pattern t = []) (terminals root (parsePattern path))"
proof -
  have s: "search root (parsePattern path) 0 = Inr (srch root (parsePattern path))"
    using search_srch[of 0 "parsePattern path" root] by simp
  have "(getRoute r m path = Inr None) = (srch root (parsePattern path) = None)"
    using assms by (auto simp: getRoute_srch rootOf_def split: option.splits sum.splits)
  also have "\<dots> = list_all (\<lambda>t. pattern t = []) (terminals root (parsePattern path))"
    by (auto simp: srch_terminals find_None_iff list_all_iff)
  finally show ?thesis using s by (simp add: srch_terminals)
qed

lemma matches_pointwise:
  "\<forall>p \<in> set (butlast ps). \<not> star p \<Longrightarrow> length sp = length ps \<Longrightarrow>
   \<forall>k < length ps. sp ! k = ps ! k \<or> dyn (ps ! k) \<Longrightarrow> matches ps sp"
proof (induction ps arbitrary: sp)
  case Nil
  then show ?case by simp
next
  case (Cons p ps)
  from Cons.prems(2) obtain s ss where sp: "sp = s # ss" by (cases sp) auto
  show ?case
  proof (cases "ps = []")
    case True
    with Cons.prems sp show ?thesis by auto
  next
    case False
    with Cons.prems(1) have np: "\<not> star p" and rest: "\<forall>q \<in> set (butlast ps). \<not> star q"
      by simp_all
    from Cons.prems(3) sp have "s = p \<or> dyn p" by auto
    moreover have "matches ps ss"
      using rest
    proof (rule Cons.IH)
      show "length ss = length ps" using Cons.prems(2) sp by simp
      show "\<forall>k < length ps. ss ! k = ps ! k \<or> dyn (ps ! k)"
        using Cons.prems(3) sp by auto
    qed
    ultimately show ?thesis using sp np by auto
  qed
qed






lemma sameKind_refl [simp]: "sameKind a a"
  by (simp add: sameKind_def)




































lemma under_matches:
  "list_all2 under ps sp \<Longrightarrow> \<forall>p \<in> set (butlast ps). \<not> star p \<Longrightarrow> matches ps sp"
proof (induction ps arbitrary: sp)
  case Nil
  then show ?case by simp
next
  case (Cons p ps)
  from Cons.prems(1) obtain s ss where sp: "sp = s # ss" "under p s" "list_all2 under ps ss"
    by (auto simp: list_all2_Cons1)
  show ?case
  proof (cases "ps = []")
    case True
    with sp show ?thesis by (auto simp: under_def)
  next
    case False
    with Cons.prems(2) have "\<not> star p" "\<forall>p \<in> set (butlast ps). \<not> star p" by simp_all
    with Cons.IH[OF sp(3)] sp show ?thesis by (simp add: under_def)
  qed
qed



lemmas route_eval =
  addRoute_ins rootOf_def newRouter_def parsePattern_def dyn_def star_iff
  getRoute_srch matchChildren_def getRoutes_def

theorem static_over_dynamic_witness:
  "\<exists>r n. addRoutes (newRouter :: nat router)
            [(''GET'', ''/users/:id'', 1), (''GET'', ''/users/new'', 2)] = Inr r \<and>
     getRoute r ''GET'' ''/users/new'' = Inr (Some (n, Map.empty)) \<and>
     parsePattern (pattern n) = [''users'', ''new'']"
proof -
  obtain r where r: "addRoutes (newRouter :: nat router)
      [(''GET'', ''/users/:id'', 1), (''GET'', ''/users/new'', 2)] = Inr r"
    by (simp add: addRoute_ins)
  have "staticPat ''/users/new''"
    by (simp add: staticPat_def parsePattern_def dyn_def)
  with static_over_dynamic[OF r, of "''GET''" "''/users/new''" 2 "''/users/new''"]
  obtain n where "getRoute r ''GET'' ''/users/new'' = Inr (Some (n, Map.empty))"
    "parsePattern (pattern n) = parsePattern ''/users/new''"
    by auto
  with r show ?thesis by (auto simp: parsePattern_def)
qed

text \<open>Claim C7 fails on the code, against the comment on \<open>matchChild\<close>, which says that
  dynamic segments are checked so that a registration does not overwrite a route. After
  \<open>/a/*f\<close>, the registration of \<open>/a/:y\<close> is not rejected: \<open>matchChild\<close> hands the segment
  \<open>:y\<close> to the wild child \<open>*f\<close>, and \<open>insert\<close> replaces the pattern \<open>/a/*f\<close> stored there.
  The request \<open>/a/foo/bar\<close>, which resolved to \<open>/a/*f\<close> with \<open>f\<close> bound to \<open>foo/bar\<close>, is
  served under \<open>/a/:y\<close> afterwards, a pattern that does not match it, with \<open>y\<close> bound to
  \<open>foo\<close>, and \<open>getRoutes\<close> lists \<open>/a/:y\<close> alone.\<close>

theorem catch_all_overwritten:
  "(case addRoutes (newRouter :: nat router) [(''GET'', ''/a/*f'', 1)] of
      Inl e \<Rightarrow> None
    | Inr r \<Rightarrow>
        (case getRoute r ''GET'' ''/a/foo/bar'' of
           Inr (Some (n, params)) \<Rightarrow> Some (pattern n, params ''f'')
         | _ \<Rightarrow> None)) = Some (''/a/*f'', Some ''foo/bar'') \<and>
   (case addRoutes (newRouter :: nat router)
           [(''GET'', ''/a/*f'', 1), (''GET'', ''/a/:y'', 2)] of
      Inl e \<Rightarrow> None
    | Inr r \<Rightarrow>
        (case getRoute r ''GET'' ''/a/foo/bar'' of
           Inr (Some (n, params)) \<Rightarrow> Some (pattern n, params ''f'', params ''y'')
         | _ \<Rightarrow> None)) = Some (''/a/:y'', None, Some ''foo'') \<and>
   (case addRoutes (newRouter :: nat router)
           [(''GET'', ''/a/*f'', 1), (''GET'', ''/a/:y'', 2)] of
      Inl e \<Rightarrow> None
    | Inr r \<Rightarrow> map_option (map pattern) (getRoutes r ''GET'')) = Some [''/a/:y''] \<and>
   \<not> matches (parsePattern ''/a/:y'') (parsePattern ''/a/foo/bar'')"
  by (simp add: route_eval)

theorem lookup_fails_iff_witness:
  "\<exists>r root. addRoutes (newRouter :: nat router) [(''GET'', ''/a/b/c'', 1)] = Inr r \<and>
     roots r ''GET'' = Some root \<and>
     map pattern (terminals root (parsePattern ''/a/b'')) = [''''] \<and>
     getRoute r ''GET'' ''/a/b'' = Inr None"
proof -
  have "\<exists>r root. addRoutes (newRouter :: nat router) [(''GET'', ''/a/b/c'', 1)] = Inr r \<and>
      roots r ''GET'' = Some root \<and>
      map pattern (terminals root (parsePattern ''/a/b'')) = ['''']"
    by (simp add: addRoute_ins rootOf_def newRouter_def parsePattern_def dyn_def star_iff
        matchChildren_def)
  then obtain r root where
    r: "addRoutes (newRouter :: nat router) [(''GET'', ''/a/b/c'', 1)] = Inr r"
    and root: "roots r ''GET'' = Some root"
    and t: "map pattern (terminals root (parsePattern ''/a/b'')) = ['''']"
    by (elim exE conjE)
  from t have "list_all (\<lambda>t. pattern t = []) (terminals root (parsePattern ''/a/b''))"
    by (auto simp: list_all_iff)
  with lookup_fails_iff[OF root, of "''/a/b''"] have "getRoute r ''GET'' ''/a/b'' = Inr None"
    by simp
  with r root t show ?thesis
    by (intro exI[of _ r] exI[of _ root]) simp
qed

text \<open>Claim C9 as the specification states it fails. With \<open>/a/b/c\<close> and \<open>/a/:x\<close>
  registered, the segments of \<open>/a/b\<close> lead \<open>search\<close> to the node \<open>b\<close>, whose pattern is
  empty, when the segments are used up; \<open>search\<close> goes on with the next candidate, and
  \<open>getRoute\<close> returns the node of \<open>/a/:x\<close>.\<close>

theorem empty_pattern_counterexample:
  "(case addRoutes (newRouter :: nat router)
           [(''GET'', ''/a/b/c'', 1), (''GET'', ''/a/:x'', 2)] of
      Inl e \<Rightarrow> None
    | Inr r \<Rightarrow>
        (case roots r ''GET'' of
           None \<Rightarrow> None
         | Some root \<Rightarrow>
             (case getRoute r ''GET'' ''/a/b'' of
                Inr (Some (n, params)) \<Rightarrow>
                  Some (map (\<lambda>t. (part t, pattern t)) (terminals root (parsePattern ''/a/b'')),
                        pattern n, params ''x'')
              | _ \<Rightarrow> None))) =
   Some ([(''b'', ''''), ('':x'', ''/a/:x'')], ''/a/:x'', Some ''b'')"
  by (simp add: route_eval)





end
